theory Spec2Isabelle
  imports Main
begin


section \<open>Values and the canonical comparator (index.c)\<close>

text \<open>
  The functions of the C sources keep their names, without the leading underscore of
  the static ones (\<open>_val_comp\<close> is \<open>val_comp\<close>). Line numbers are those of the source file
  named in the section title.

  An \<open>s4_val_t\<close> is either a 32-bit signed integer or a C string. Only the tag and the
  content are read by the functions below, so the integer is an \<open>int\<close> and the string a
  \<open>string\<close> (a list of bytes without the terminating NUL).
\<close>

datatype s4_val = S4_Int int | S4_Str string

text \<open>
  \<open>strcmp\<close>: C fixes only the sign of the result (negative, zero, positive) and the callers
  below test nothing else, so the model returns -1, 0 or 1. Bytes are compared as unsigned
  chars.
\<close>

fun strcmp :: "string \<Rightarrow> string \<Rightarrow> int" where
  "strcmp [] [] = 0"
| "strcmp [] (y # ys) = -1"
| "strcmp (x # xs) [] = 1"
| "strcmp (x # xs) (y # ys) =
     (if (of_char x :: nat) < of_char y then -1
      else if (of_char y :: nat) < of_char x then 1
      else strcmp xs ys)"

text \<open>\<open>_val_comp\<close>, lines 56-69 of index.c, branch by branch.\<close>

fun val_comp :: "s4_val \<Rightarrow> s4_val \<Rightarrow> int" where
  "val_comp (S4_Int i1) (S4_Int i2) = (if i1 > i2 then 1 else (if i1 < i2 then -1 else 0))"
| "val_comp (S4_Str s1) (S4_Str s2) = strcmp s1 s2"
| "val_comp (S4_Int i1) (S4_Str s2) = -1"
| "val_comp (S4_Str s1) (S4_Int i2) = 1"


section \<open>The value index (index.c)\<close>

text \<open>
  Pointers are addresses. \<open>void *data\<close> of an occurrence is the address of the relation
  record it refers to; \<open>index_t.data\<close> is the address of a heap array of occurrences.
\<close>

type_synonym addr = nat

text \<open>\<open>index_data_t\<close>: one occurrence, a relation reference and its count.\<close>

record index_data_t =
  od_data :: addr
  od_count :: int

text \<open>
  \<open>index_t\<close>: one bucket. The C fields \<open>data\<close> and \<open>size\<close> are an address and the number
  of cells in use; here \<open>it_data_addr\<close> is the address and \<open>it_data\<close> holds the cells
  \<open>data[0] .. data[size - 1]\<close>, so that \<open>size\<close> is the length of that list. Cells past
  \<open>size\<close> (unused capacity, or memory past the allocation) are not part of the record:
  a read of such a cell is made explicit where the source performs one.
\<close>

record index_t =
  it_val :: s4_val
  it_alloc :: nat
  it_data_addr :: addr
  it_data :: "index_data_t list"

definition it_size :: "index_t \<Rightarrow> nat" where
  "it_size b = length (it_data b)"

text \<open>
  \<open>struct s4_index_St\<close>: the bucket array. \<open>ix_data\<close> holds the cells
  \<open>data[0] .. data[size - 1]\<close>, so that \<open>size\<close> is again the length of the list, and
  \<open>ix_stale\<close> holds the cells \<open>data[size], data[size + 1], ...\<close> that have been written
  before: what a \<open>memmove\<close> and a decrement of \<open>size\<close> leave behind. The cells after those
  have never been written (or lie past the allocation), and have no defined content.
\<close>

record s4_index_t =
  ix_alloc :: nat
  ix_data :: "index_t list"
  ix_stale :: "index_t list"

definition ix_size :: "s4_index_t \<Rightarrow> nat" where
  "ix_size index = length (ix_data index)"

text \<open>\<open>_index_create\<close>: no bucket, room for one.\<close>

definition index_create :: s4_index_t where
  "index_create = \<lparr>ix_alloc = 1, ix_data = [], ix_stale = []\<rparr>"

text \<open>
  \<open>_data_search\<close>, lines 71-88: binary search for a relation reference among the
  occurrences of one bucket. A reference smaller than the probed one sends the search to
  the right, so the occurrences are kept in descending address order.
\<close>

function data_search_loop :: "index_data_t list \<Rightarrow> addr \<Rightarrow> nat \<Rightarrow> nat \<Rightarrow> nat" where
  "data_search_loop cells d lo hi =
     (if int hi - int lo > 0 then
        (let m = (hi + lo) div 2 in
         if d = od_data (cells ! m) then m
         else if d < od_data (cells ! m) then data_search_loop cells d (m + 1) hi
         else data_search_loop cells d lo m)
      else lo)"
  by pat_completeness auto
termination
  by (relation "measure (\<lambda>(cells, d, lo, hi). hi - lo)") auto

declare data_search_loop.simps [simp del]

definition data_search :: "index_t \<Rightarrow> addr \<Rightarrow> nat" where
  "data_search b d = data_search_loop (it_data b) d 0 (it_size b)"

text \<open>
  \<open>_bsearch\<close>, lines 90-108: binary search over the buckets with a caller-supplied
  comparison \<open>func (value, funcdata)\<close>; a negative result sends the search to the right.
\<close>

function bsearch_loop ::
  "index_t list \<Rightarrow> (s4_val \<Rightarrow> 'd \<Rightarrow> int) \<Rightarrow> 'd \<Rightarrow> nat \<Rightarrow> nat \<Rightarrow> nat" where
  "bsearch_loop bs func funcdata lo hi =
     (if int hi - int lo > 0 then
        (let m = (hi + lo) div 2; c = func (it_val (bs ! m)) funcdata in
         if c = 0 then m
         else if c < 0 then bsearch_loop bs func funcdata (m + 1) hi
         else bsearch_loop bs func funcdata lo m)
      else lo)"
  by pat_completeness auto
termination
  by (relation "measure (\<lambda>(bs, func, funcdata, lo, hi). hi - lo)") auto

declare bsearch_loop.simps [simp del]

definition bsearch :: "s4_index_t \<Rightarrow> (s4_val \<Rightarrow> 'd \<Rightarrow> int) \<Rightarrow> 'd \<Rightarrow> nat" where
  "bsearch index func funcdata = bsearch_loop (ix_data index) func funcdata 0 (ix_size index)"

text \<open>
  \<open>_index_insert\<close>, lines 110-146, in its two halves. Two things the C code takes from
  its environment are parameters of the model:
  \<^item> \<open>new_addr\<close>: the address \<open>malloc\<close> (line 123) or \<open>realloc\<close> (line 133) returns for
    an occurrence array; at most one of the two calls happens in one insertion;
  \<^item> \<open>junk\<close>: the pointer found in the cell \<open>data[i].data[j]\<close> when \<open>j\<close> is the bucket's
    \<open>size\<close>, which line 130 reads whenever \<open>j < index->size\<close>: that cell is
    uninitialised or stale memory, so its content is arbitrary.

  Lines 114-126: when the binary search ended on no bucket of that value, a new empty
  bucket is put at position \<open>i\<close> and the buckets from \<open>i\<close> on move up by one, over the
  cell \<open>data[size]\<close>. \<open>realloc\<close> keeps the content of the cells.
\<close>

definition index_insert_bucket :: "addr \<Rightarrow> s4_index_t \<Rightarrow> s4_val \<Rightarrow> nat \<Rightarrow> s4_index_t" where
  "index_insert_bucket new_addr index val i =
     (if i \<ge> ix_size index \<or> val_comp val (it_val (ix_data index ! i)) \<noteq> 0 then
        \<lparr>ix_alloc = (if ix_size index \<ge> ix_alloc index then ix_alloc index * 2
                      else ix_alloc index),
         ix_data = take i (ix_data index)
           @ [\<lparr>it_val = val, it_alloc = 1, it_data_addr = new_addr, it_data = []\<rparr>]
           @ drop i (ix_data index),
         ix_stale = drop 1 (ix_stale index)\<rparr>
      else index)"

text \<open>
  Lines 128-143, on the bucket \<open>b = index->data[i]\<close>; \<open>index_size\<close> is \<open>index->size\<close>,
  the number of buckets, which is what the guard of line 130 compares \<open>j\<close> with. When
  the guard fails on a cell past the bucket's size, line 142 increments the count of
  that unused cell (outside the allocation when the array is full) and the cells in use
  are left as they were.
\<close>

definition index_insert_data ::
  "addr \<Rightarrow> addr \<Rightarrow> nat \<Rightarrow> index_t \<Rightarrow> addr \<Rightarrow> index_t" where
  "index_insert_data new_addr junk index_size b new_data =
     (let j = data_search b new_data in
      if j \<ge> index_size
          \<or> new_data \<noteq> (if j < it_size b then od_data (it_data b ! j) else junk) then
        \<lparr>it_val = it_val b,
         it_alloc = (if it_size b \<ge> it_alloc b then it_alloc b * 2 else it_alloc b),
         it_data_addr = (if it_size b \<ge> it_alloc b then new_addr else it_data_addr b),
         it_data = take j (it_data b)
           @ [\<lparr>od_data = new_data, od_count = 1\<rparr>]
           @ drop j (it_data b)\<rparr>
      else if j < it_size b then
        b\<lparr>it_data := (it_data b)[j := (it_data b ! j)\<lparr>od_count := od_count (it_data b ! j) + 1\<rparr>]\<rparr>
      else b)"

definition index_insert ::
  "addr \<Rightarrow> addr \<Rightarrow> s4_index_t \<Rightarrow> s4_val \<Rightarrow> addr \<Rightarrow> int \<times> s4_index_t" where
  "index_insert new_addr junk index val new_data =
     (let i = bsearch index val_comp val;
          index1 = index_insert_bucket new_addr index val i;
          b' = index_insert_data new_addr junk (ix_size index1) (ix_data index1 ! i) new_data
      in (1, index1\<lparr>ix_data := (ix_data index1)[i := b']\<rparr>))"

text \<open>
  \<open>_index_delete\<close>, lines 148-173. Line 157 compares the relation reference with
  \<open>index->data[i].data\<close>, the address of the bucket's occurrence array, and \<open>j\<close> with the
  number of buckets; the model does the same. Past that guard the source touches cell
  \<open>j\<close> of the bucket without having checked that it is in use, and line 168 moves
  \<open>size - i - 1\<close> buckets from position \<open>i + i\<close>, which may stand past \<open>size\<close>.
\<close>

datatype fault = OutOfBounds

text \<open>
  Lines 160-172, for bucket \<open>i\<close> and cell \<open>j\<close>. \<open>junk\<close> is the count found in the cell
  \<open>data[i].data[j]\<close> when \<open>j\<close> is not below the bucket's \<open>size\<close> (as for the insertion,
  the content of that cell is arbitrary); decrementing it changes no cell in use. When
  the count falls to zero there, \<open>memmove\<close> is called with the negative length
  \<open>size - j - 1\<close>, converted to \<open>size_t\<close>: this is the result \<open>Inl OutOfBounds\<close>.

  Line 168: \<open>memmove\<close> copies as if through a temporary buffer, so the cells
  \<open>i, ..., size - 2\<close> receive what stood in the cells \<open>i + i, ...\<close> before the call, in
  use or stale; when one of these has no defined content the result is
  \<open>Inl OutOfBounds\<close>. Every other cell keeps its content, and \<open>size\<close> is decremented,
  which leaves the last cell that was in use as the first stale one. \<open>free\<close> (line 167)
  is not modelled: when \<open>i + i\<close> is not \<open>i + 1\<close>, cells that stay in use may hold the
  address of an array that was freed, or the same address twice.
\<close>

definition index_delete_at :: "int \<Rightarrow> s4_index_t \<Rightarrow> nat \<Rightarrow> nat \<Rightarrow> fault + (int \<times> s4_index_t)" where
  "index_delete_at junk index i j =
     (let b = ix_data index ! i;
          c = (if j < it_size b then od_count (it_data b ! j) else junk) - 1 in
      if c \<le> 0 \<and> j \<ge> it_size b then Inl OutOfBounds
      else
        let b1 = (if c \<le> 0 then b\<lparr>it_data := take j (it_data b) @ drop (j + 1) (it_data b)\<rparr>
                  else if j < it_size b
                    then b\<lparr>it_data := (it_data b)[j := (it_data b ! j)\<lparr>od_count := c\<rparr>]\<rparr>
                  else b);
            cells = (ix_data index)[i := b1] @ ix_stale index;
            n = ix_size index - i - 1 in
        if it_size b1 \<le> 0 then
          (if n > 0 \<and> i + i + n > length cells then Inl OutOfBounds
           else
             let cells' = take i cells @ take n (drop (i + i) cells) @ drop (i + n) cells
             in Inr (1, index\<lparr>ix_data := take (ix_size index - 1) cells',
                              ix_stale := drop (ix_size index - 1) cells'\<rparr>))
        else Inr (1, index\<lparr>ix_data := (ix_data index)[i := b1]\<rparr>))"

definition index_delete ::
  "int \<Rightarrow> s4_index_t \<Rightarrow> s4_val \<Rightarrow> addr \<Rightarrow> fault + (int \<times> s4_index_t)" where
  "index_delete junk index val new_data =
     (let i = bsearch index val_comp val in
      if i \<ge> ix_size index \<or> val_comp val (it_val (ix_data index ! i)) \<noteq> 0 then Inr (0, index)
      else
        let j = data_search (ix_data index ! i) new_data in
        if j \<ge> ix_size index \<or> new_data \<noteq> it_data_addr (ix_data index ! i) then Inr (0, index)
        else index_delete_at junk index i j)"

text \<open>
  \<open>_index_search\<close>, lines 175-208. \<open>found\<close> is a GHashTable used as a set of pointers:
  inserting a key that is present leaves the keys as they are. The table is modelled by
  the list of its keys in insertion order; GLib does not specify the order in which a
  table is iterated, and nothing below depends on it. A \<open>NULL\<close> function pointer stands
  for \<open>_val_comp\<close>; \<open>NULL\<close> as a GList is the empty list.
\<close>

definition g_hash_table_insert :: "addr list \<Rightarrow> addr \<Rightarrow> addr list" where
  "g_hash_table_insert found key = (if key \<in> set found then found else found @ [key])"

function scan_left :: "index_t list \<Rightarrow> (s4_val \<Rightarrow> 'd \<Rightarrow> int) \<Rightarrow> 'd \<Rightarrow> int \<Rightarrow> int" where
  "scan_left bs func func_data i =
     (if i \<ge> 0 \<and> func (it_val (bs ! nat i)) func_data = 0
      then scan_left bs func func_data (i - 1) else i)"
  by pat_completeness auto
termination
  by (relation "measure (\<lambda>(bs, func, func_data, i). nat (i + 1))") auto

declare scan_left.simps [simp del]

function collect ::
  "index_t list \<Rightarrow> (s4_val \<Rightarrow> 'd \<Rightarrow> int) \<Rightarrow> 'd \<Rightarrow> nat \<Rightarrow> addr list \<Rightarrow> addr list" where
  "collect bs func func_data i found =
     (if i < length bs \<and> func (it_val (bs ! i)) func_data = 0
      then collect bs func func_data (i + 1)
             (foldl g_hash_table_insert found (map od_data (it_data (bs ! i))))
      else found)"
  by pat_completeness auto
termination
  by (relation "measure (\<lambda>(bs, func, func_data, i, found). length bs - i)") auto

declare collect.simps [simp del]

definition index_search ::
  "s4_index_t \<Rightarrow> (s4_val \<Rightarrow> s4_val \<Rightarrow> int) option \<Rightarrow> s4_val \<Rightarrow> addr list" where
  "index_search index func func_data =
     (let func = (case func of None \<Rightarrow> val_comp | Some g \<Rightarrow> g);
          i = bsearch index func func_data in
      if i \<ge> ix_size index \<or> func (it_val (ix_data index ! i)) func_data \<noteq> 0 then []
      else
        let i0 = nat (scan_left (ix_data index) func func_data (int i) + 1);
            found = collect (ix_data index) func func_data i0 []
        in rev found)"

subsection \<open>Sequences of index operations, and the predicates of the specification\<close>

text \<open>
  An operation on an index is an insertion or a deletion, each with what it takes from
  its environment. A sequence of operations stops at the first memory fault.
\<close>

datatype index_op = Insert addr addr s4_val addr | Delete int s4_val addr

fun apply_op :: "s4_index_t \<Rightarrow> index_op \<Rightarrow> fault + s4_index_t" where
  "apply_op index (Insert new_addr junk val new_data) =
     Inr (snd (index_insert new_addr junk index val new_data))"
| "apply_op index (Delete junk val new_data) =
     (case index_delete junk index val new_data of Inl e \<Rightarrow> Inl e | Inr (rc, index') \<Rightarrow> Inr index')"

fun apply_ops :: "s4_index_t \<Rightarrow> index_op list \<Rightarrow> fault + s4_index_t" where
  "apply_ops index [] = Inr index"
| "apply_ops index (x # xs) =
     (case apply_op index x of Inl e \<Rightarrow> Inl e | Inr index' \<Rightarrow> apply_ops index' xs)"

text \<open>
  The addresses of the occurrence arrays of an index, and of the arrays a sequence of
  operations brings in; and the deletions whose relation reference is none of these
  addresses.
\<close>

definition array_addrs :: "s4_index_t \<Rightarrow> addr set" where
  "array_addrs index = it_data_addr ` set (ix_data index)"

fun op_is_safe :: "addr set \<Rightarrow> index_op \<Rightarrow> bool" where
  "op_is_safe arrays (Insert new_addr junk val new_data) = True"
| "op_is_safe arrays (Delete junk val new_data) = (new_data \<notin> arrays)"

fun op_arrays :: "index_op \<Rightarrow> addr set" where
  "op_arrays (Insert new_addr junk val new_data) = {new_addr}"
| "op_arrays (Delete junk val new_data) = {}"

text \<open>
  The bucket array is strictly sorted under the canonical comparator: every bucket's
  value compares below the value of every later bucket.
\<close>

definition index_sorted :: "s4_index_t \<Rightarrow> bool" where
  "index_sorted index = sorted_wrt (\<lambda>a b. val_comp a b < 0) (map it_val (ix_data index))"

text \<open>
  A search predicate is monotone along the canonical order when its sign never decreases
  as the value grows: once positive it stays positive, and before a negative result all
  results are negative.
\<close>

definition monotone_pred :: "(s4_val \<Rightarrow> int) \<Rightarrow> bool" where
  "monotone_pred f = (\<forall>v w. val_comp v w < 0 \<longrightarrow>
      (f v > 0 \<longrightarrow> f w > 0) \<and> (f w < 0 \<longrightarrow> f v < 0))"

text \<open>The same along the buckets of one index.\<close>

definition sign_mono :: "(s4_val \<Rightarrow> int) \<Rightarrow> index_t list \<Rightarrow> bool" where
  "sign_mono f bs = (\<forall>i j. i < j \<and> j < length bs \<longrightarrow>
      (f (it_val (bs ! i)) > 0 \<longrightarrow> f (it_val (bs ! j)) > 0) \<and>
      (f (it_val (bs ! j)) < 0 \<longrightarrow> f (it_val (bs ! i)) < 0))"

text \<open>
  What a binary search returns: a position holding a zero of the predicate, or else the
  position that separates the negative results from the positive ones.
\<close>

definition bsearch_post :: "(s4_val \<Rightarrow> int) \<Rightarrow> index_t list \<Rightarrow> nat \<Rightarrow> bool" where
  "bsearch_post f bs r = (r \<le> length bs \<and>
          ((r < length bs \<and> f (it_val (bs ! r)) = 0) \<or>
           ((\<forall>k<r. f (it_val (bs ! k)) < 0) \<and>
            (\<forall>k. r \<le> k \<and> k < length bs \<longrightarrow> f (it_val (bs ! k)) > 0))))"

text \<open>The relation references held by the buckets whose value the predicate maps to zero.\<close>

definition matching_refs :: "s4_index_t \<Rightarrow> (s4_val \<Rightarrow> int) \<Rightarrow> addr set" where
  "matching_refs index f =
     {od_data c | b c. b \<in> set (ix_data index) \<and> f (it_val b) = 0 \<and> c \<in> set (it_data b)}"





section \<open>Source preferences (sourcepref.c)\<close>

text \<open>
  A source preference holds the compiled glob patterns in order and a table that maps a
  source id to its priority. GLib's pattern type and matcher are outside this repository:
  the type of compiled patterns is the parameter \<open>'p\<close>, \<open>g_pattern_spec_new\<close> and
  \<open>g_pattern_match_string\<close> are parameters of the functions that call them. So is
  \<open>st_reverse\<close>, the string table's lookup of the string of a source id
  (\<open>_st_reverse (sp->s4, src)\<close>). \<open>spec_count\<close> is the length of the pattern list; the
  mutex has no effect on the values computed.
\<close>

record 'p s4_sourcepref_t =
  sp_table :: "int \<rightharpoonup> int"
  sp_specs :: "'p list"

definition INT_MAX :: int where
  "INT_MAX = 2147483647"

text \<open>\<open>_get_priority\<close>, lines 13-23: the loop over \<open>i = 0, 1, ...\<close>, from position \<open>i\<close> on.\<close>

function get_priority_from ::
  "('p \<Rightarrow> string \<Rightarrow> bool) \<Rightarrow> 'p s4_sourcepref_t \<Rightarrow> string \<Rightarrow> nat \<Rightarrow> int" where
  "get_priority_from g_pattern_match_string sp src i =
     (if i < length (sp_specs sp) then
        (if g_pattern_match_string (sp_specs sp ! i) src then int i
         else get_priority_from g_pattern_match_string sp src (i + 1))
      else INT_MAX)"
  by pat_completeness auto
termination
  by (relation "measure (\<lambda>(m, sp, src, i). length (sp_specs sp) - i)") auto

declare get_priority_from.simps [simp del]

definition get_priority :: "('p \<Rightarrow> string \<Rightarrow> bool) \<Rightarrow> 'p s4_sourcepref_t \<Rightarrow> string \<Rightarrow> int" where
  "get_priority g_pattern_match_string sp src = get_priority_from g_pattern_match_string sp src 0"

text \<open>\<open>s4_sourcepref_create\<close>, lines 25-42: an empty table and one compiled pattern per string.\<close>

definition s4_sourcepref_create :: "(string \<Rightarrow> 'p) \<Rightarrow> string list \<Rightarrow> 'p s4_sourcepref_t" where
  "s4_sourcepref_create g_pattern_spec_new srcprefs =
     \<lparr>sp_table = Map.empty, sp_specs = map g_pattern_spec_new srcprefs\<rparr>"

text \<open>
  \<open>s4_sourcepref_get_priority\<close>, lines 56-78: the cached priority when the table has
  one, otherwise the computed priority, which is stored. The result is the priority and
  the source preference with its table as the call leaves it.
\<close>

definition s4_sourcepref_get_priority ::
  "(int \<Rightarrow> string) \<Rightarrow> ('p \<Rightarrow> string \<Rightarrow> bool) \<Rightarrow> 'p s4_sourcepref_t \<Rightarrow> int
     \<Rightarrow> int \<times> 'p s4_sourcepref_t" where
  "s4_sourcepref_get_priority st_reverse g_pattern_match_string sp src =
     (case sp_table sp src of
        None \<Rightarrow>
          (let src_str = st_reverse src;
               pri = get_priority g_pattern_match_string sp src_str
           in (pri, sp\<lparr>sp_table := (sp_table sp)(src \<mapsto> pri)\<rparr>))
      | Some i \<Rightarrow> (i, sp))"

text \<open>
  The source preference after \<open>s4_sourcepref_create\<close> and any number of priority
  queries, the only functions of the file that write the table.
\<close>

definition sp_after ::
  "(string \<Rightarrow> 'p) \<Rightarrow> (int \<Rightarrow> string) \<Rightarrow> ('p \<Rightarrow> string \<Rightarrow> bool) \<Rightarrow> string list \<Rightarrow> int list
     \<Rightarrow> 'p s4_sourcepref_t" where
  "sp_after g_pattern_spec_new st_reverse g_pattern_match_string srcprefs srcs =
     foldl (\<lambda>sp src. snd (s4_sourcepref_get_priority st_reverse g_pattern_match_string sp src))
       (s4_sourcepref_create g_pattern_spec_new srcprefs) srcs"

text \<open>
  The specification's priority of a source string: \<open>r\<close> is the index of the first pattern
  that matches, or \<open>INT_MAX\<close> when none does.
\<close>

definition first_match :: "('p \<Rightarrow> string \<Rightarrow> bool) \<Rightarrow> 'p list \<Rightarrow> string \<Rightarrow> int \<Rightarrow> bool" where
  "first_match g_pattern_match_string specs src r =
     ((r = INT_MAX \<and> (\<forall>k<length specs. \<not> g_pattern_match_string (specs ! k) src))
      \<or> (0 \<le> r \<and> nat r < length specs \<and> g_pattern_match_string (specs ! nat r) src
          \<and> (\<forall>k<nat r. \<not> g_pattern_match_string (specs ! k) src)))"

text \<open>Every priority in the table is the one \<open>_get_priority\<close> computes for that source.\<close>

definition table_ok ::
  "(int \<Rightarrow> string) \<Rightarrow> ('p \<Rightarrow> string \<Rightarrow> bool) \<Rightarrow> 'p s4_sourcepref_t \<Rightarrow> bool" where
  "table_ok st_reverse g_pattern_match_string sp =
     (\<forall>src p. sp_table sp src = Some p \<longrightarrow>
        p = get_priority g_pattern_match_string sp (st_reverse src))"


section \<open>Fetch specifications (fetchspec.c)\<close>

text \<open>
  \<open>fetch_data_t\<close>: a key (a C string or \<open>NULL\<close>), a pointer to a source preference (an
  address or \<open>NULL\<close>), the flags and the \<open>const_key\<close> mark. \<open>struct s4_fetchspec_St\<close>: the
  reference count and the GArray of projections, whose \<open>len\<close> is the length of the list.
\<close>

record fetch_data_t =
  fd_key :: "string option"
  fd_pref :: "addr option"
  fd_flags :: int
  fd_const_key :: int

record s4_fetchspec_t =
  fs_ref_count :: int
  fs_array :: "fetch_data_t list"

definition s4_fetchspec_create :: s4_fetchspec_t where
  "s4_fetchspec_create = \<lparr>fs_ref_count = 1, fs_array = []\<rparr>"

text \<open>\<open>strdup\<close> returns a copy of the string: another address, the same content.\<close>

definition strdup :: "string \<Rightarrow> string" where
  "strdup s = s"

text \<open>
  \<open>s4_fetchspec_add\<close>, lines 64-81. \<open>s4_sourcepref_ref\<close> is not in the sources
  (\<open>sourcepref.c\<close> as given has no reference count); it is a parameter: the function
  from the pointer passed to the pointer that is stored.
\<close>

definition s4_fetchspec_add ::
  "(addr \<Rightarrow> addr) \<Rightarrow> s4_fetchspec_t \<Rightarrow> string option \<Rightarrow> addr option \<Rightarrow> int \<Rightarrow> s4_fetchspec_t" where
  "s4_fetchspec_add s4_sourcepref_ref spec key sourcepref flags =
     (let data = \<lparr>fd_key = (case key of None \<Rightarrow> None | Some k \<Rightarrow> Some (strdup k)),
                  fd_pref = (case sourcepref of Some p \<Rightarrow> Some (s4_sourcepref_ref p)
                             | None \<Rightarrow> None),
                  fd_flags = flags,
                  fd_const_key = 0\<rparr>
      in spec\<lparr>fs_array := fs_array spec @ [data]\<rparr>)"

definition s4_fetchspec_size :: "s4_fetchspec_t \<Rightarrow> int" where
  "s4_fetchspec_size spec = int (length (fs_array spec))"

text \<open>The three getters, lines 162-190, with their bounds check.\<close>

definition s4_fetchspec_get_key :: "s4_fetchspec_t \<Rightarrow> int \<Rightarrow> string option" where
  "s4_fetchspec_get_key spec index =
     (if index < 0 \<or> index \<ge> int (length (fs_array spec)) then None
      else fd_key (fs_array spec ! nat index))"

definition s4_fetchspec_get_sourcepref :: "s4_fetchspec_t \<Rightarrow> int \<Rightarrow> addr option" where
  "s4_fetchspec_get_sourcepref spec index =
     (if index < 0 \<or> index \<ge> int (length (fs_array spec)) then None
      else fd_pref (fs_array spec ! nat index))"

definition s4_fetchspec_get_flags :: "s4_fetchspec_t \<Rightarrow> int \<Rightarrow> int" where
  "s4_fetchspec_get_flags spec index =
     (if index < 0 \<or> index \<ge> int (length (fs_array spec)) then 0
      else fd_flags (fs_array spec ! nat index))"

text \<open>
  The fetch specification after \<open>s4_fetchspec_create\<close> and the calls of
  \<open>s4_fetchspec_add\<close> with the given (key, sourcepref, flags), in order.
\<close>

definition fetchspec_of ::
  "(addr \<Rightarrow> addr) \<Rightarrow> (string option \<times> addr option \<times> int) list \<Rightarrow> s4_fetchspec_t" where
  "fetchspec_of s4_sourcepref_ref adds =
     foldl (\<lambda>spec (key, sourcepref, flags).
              s4_fetchspec_add s4_sourcepref_ref spec key sourcepref flags)
       s4_fetchspec_create adds"


section \<open>The write-ahead log: writing (log.c)\<close>

text \<open>
  \<open>log_type_t\<close>, with the values the enum gives its members, and \<open>LOG_SIZE\<close>.
\<close>

datatype log_type_t =
    LOG_ENTRY_ADD | LOG_ENTRY_DEL | LOG_ENTRY_WRAP | LOG_ENTRY_INIT
  | LOG_ENTRY_BEGIN | LOG_ENTRY_END | LOG_ENTRY_WRITING | LOG_ENTRY_CHECKPOINT

fun log_type_code :: "log_type_t \<Rightarrow> int" where
  "log_type_code LOG_ENTRY_ADD = 0xaddadd"
| "log_type_code LOG_ENTRY_DEL = 0xde1e7e"
| "log_type_code LOG_ENTRY_WRAP = 0x123123"
| "log_type_code LOG_ENTRY_INIT = 0x87654321"
| "log_type_code LOG_ENTRY_BEGIN = 0x1"
| "log_type_code LOG_ENTRY_END = 0x2"
| "log_type_code LOG_ENTRY_WRITING = 0x3"
| "log_type_code LOG_ENTRY_CHECKPOINT = 0x4"

definition LOG_SIZE :: int where
  "LOG_SIZE = 2 * 1024 * 1024"

text \<open>
  Modelled from the spec: \<open>log_number_t\<close> is declared in \<open>s4_priv.h\<close>, which is not in
  the sources. Sections 4.9 and 6 give the counter of a record as a 64-bit number,
  \<open>u64 counter\<close>: an unsigned integer of 64 bits, that is of 8 bytes. A value computed in
  that type or stored in an object of that type is taken modulo \<open>2 ^ 64\<close>, and \<open>int\<close> and
  \<open>long\<close> operands are converted to it: \<open>log_number_t x\<close> is the conversion of the
  integer \<open>x\<close> to the type.
\<close>

definition log_number_t :: "int \<Rightarrow> int" where
  "log_number_t x = x mod 2 ^ 64"

definition sizeof_log_number_t :: nat where
  "sizeof_log_number_t = 8"

text \<open>
  The size of \<open>struct log_header\<close> follows from the alignment of the platform; it is a
  parameter, together with the decoding of the types from the bytes of a file, which the
  reading functions of the next section use. \<open>struct mod_header\<close> is five \<open>int32_t\<close>: 20
  bytes.
\<close>

record abi =
  sizeof_log_header :: nat
  decode_log_header :: "string \<Rightarrow> int \<times> int"
  decode_mod_header :: "string \<Rightarrow> int \<times> int \<times> int \<times> int \<times> int"
  decode_int32 :: "string \<Rightarrow> int"
  decode_log_number :: "string \<Rightarrow> int"

definition sizeof_mod_header :: int where
  "sizeof_mod_header = 20"

definition sizeof_int32_t :: int where
  "sizeof_int32_t = 4"

text \<open>
  \<open>struct s4_log_data_St\<close>. \<open>logfile\<close> is \<open>None\<close> for a \<open>NULL\<close> file; the type of an
  open file depends on what is done with it: the writing functions append to it, the
  redo reads it. The four counters are of type \<open>log_number_t\<close>. The mutex and
  \<open>log_users\<close> play no part in the values computed.
\<close>

record 'f s4_log_data_t =
  logfile :: "'f option"
  last_checkpoint :: int
  last_synced :: int
  last_logpoint :: int
  next_logpoint :: int

text \<open>
  A file that is written: the position of the stream and, in the order of the calls,
  every object written by \<open>fwrite\<close> with the offset it was written at.
\<close>

datatype written =
    W_header log_type_t int
  | W_mod_header int int int int int
  | W_str string
  | W_int32 int
  | W_log_number int

record out_file =
  fpos :: int
  fwrites :: "(int \<times> written) list"

fun written_size :: "abi \<Rightarrow> written \<Rightarrow> int" where
  "written_size a (W_header t n) = int (sizeof_log_header a)"
| "written_size a (W_mod_header ka va kb vb s) = sizeof_mod_header"
| "written_size a (W_str s) = int (length s)"
| "written_size a (W_int32 i) = sizeof_int32_t"
| "written_size a (W_log_number n) = int sizeof_log_number_t"

definition fwrite :: "abi \<Rightarrow> out_file \<Rightarrow> written \<Rightarrow> out_file" where
  "fwrite a f w = \<lparr>fpos = fpos f + written_size a w, fwrites = fwrites f @ [(fpos f, w)]\<rparr>"

definition rewind :: "out_file \<Rightarrow> out_file" where
  "rewind f = f\<lparr>fpos := 0\<rparr>"

definition ftell :: "out_file \<Rightarrow> int" where
  "ftell f = fpos f"

text \<open>
  Modelled from the spec: the oplist (\<open>oplist.c\<close> is not in the sources). Section 4.8:
  every add and del appends a tagged entry to the oplist, and the tags are ADD, DEL and
  WRITING. \<open>_oplist_first\<close> and \<open>_oplist_next\<close> walk the entries in order, and
  \<open>_oplist_get_add\<close>, \<open>_oplist_get_del\<close>, \<open>_oplist_get_writing\<close> tell the tag and return
  the five fields of a relation.
\<close>

datatype oplist_entry =
    OP_ADD string s4_val string s4_val string
  | OP_DEL string s4_val string s4_val string
  | OP_WRITING

type_synonym oplist_t = "oplist_entry list"

text \<open>\<open>_get_val_len\<close>, lines 150-158, and \<open>_get_size\<close>, lines 93-110.\<close>

fun get_val_len :: "s4_val \<Rightarrow> int" where
  "get_val_len (S4_Str s) = int (length s)"
| "get_val_len (S4_Int i) = -1"

definition get_size :: "int \<times> int \<times> int \<times> int \<times> int \<Rightarrow> int" where
  "get_size hdr =
     (case hdr of (ka_len, va_len, kb_len, vb_len, s_len) \<Rightarrow>
        sizeof_mod_header + (ka_len + kb_len + s_len)
        + (if va_len = -1 then sizeof_int32_t else va_len)
        + (if vb_len = -1 then sizeof_int32_t else vb_len))"

text \<open>
  \<open>_estimate_size\<close>, lines 168-204. The loop keeps \<open>ret\<close>, \<open>largest\<close> and \<open>*writing\<close>;
  the size of an entry is computed as the source computes it, with \<open>strlen (key_a)\<close>
  twice and with \<open>_get_val_len\<close> of the two values.
\<close>

fun estimate_entry :: "abi \<Rightarrow> oplist_entry \<Rightarrow> int" where
  "estimate_entry a (OP_ADD key_a val_a key_b val_b src) =
     int (sizeof_log_header a) + sizeof_mod_header
     + (int (length key_a) + int (length key_a) + int (length src))
     + (get_val_len val_a + get_val_len val_b)"
| "estimate_entry a (OP_DEL key_a val_a key_b val_b src) =
     int (sizeof_log_header a) + sizeof_mod_header
     + (int (length key_a) + int (length key_a) + int (length src))
     + (get_val_len val_a + get_val_len val_b)"
| "estimate_entry a OP_WRITING = int (sizeof_log_header a)"

fun estimate_loop :: "abi \<Rightarrow> oplist_t \<Rightarrow> int \<Rightarrow> int \<Rightarrow> int \<Rightarrow> int \<times> int \<times> int" where
  "estimate_loop a [] ret largest writing = (ret, largest, writing)"
| "estimate_loop a (e # es) ret largest writing =
     (let size' = estimate_entry a e;
          writing' = (if e = OP_WRITING then 1 else writing)
      in estimate_loop a es (ret + size') (max size' largest) writing')"

definition estimate_size :: "abi \<Rightarrow> oplist_t \<Rightarrow> int \<Rightarrow> int \<times> int" where
  "estimate_size a list writing =
     (case estimate_loop a list 0 0 writing of (ret, largest, writing') \<Rightarrow>
        if ret = 0 then (0, writing')
        else (ret + 3 * int (sizeof_log_header a) + largest, writing'))"

text \<open>
  \<open>_log_write_header\<close>, lines 232-259: the header gets the number \<open>pos + round * LOG_SIZE\<close>
  computed from \<open>next_logpoint\<close> and is written at the position of the stream, after a
  WRAP header and a \<open>rewind\<close> when the entry would not fit. \<open>pos\<close> and \<open>round\<close> are of type
  \<open>log_number_t\<close>, and so are the sums they occur in. The right-hand side of the
  comparison of line 243 is computed in \<open>size_t\<close>; it is \<open>LOG_SIZE\<close> less two headers as
  long as two headers are not larger than \<open>LOG_SIZE\<close>.
\<close>

definition log_write_header ::
  "abi \<Rightarrow> out_file s4_log_data_t \<Rightarrow> log_type_t \<Rightarrow> int \<Rightarrow> out_file s4_log_data_t" where
  "log_write_header a ld type size' =
     (case logfile ld of
        None \<Rightarrow> ld
      | Some f \<Rightarrow>
          let pos = next_logpoint ld mod LOG_SIZE;
              round = next_logpoint ld div LOG_SIZE;
              wrap = (log_number_t (pos + size') > LOG_SIZE - int (sizeof_log_header a) * 2);
              f1 = (if wrap
                    then rewind (fwrite a f
                           (W_header LOG_ENTRY_WRAP (log_number_t (pos + round * LOG_SIZE))))
                    else f);
              pos1 = (if wrap then 0 else pos);
              round1 = (if wrap then log_number_t (round + 1) else round);
              f2 = fwrite a f1 (W_header type (log_number_t (pos1 + round1 * LOG_SIZE)))
          in ld\<lparr>logfile := Some f2,
                last_logpoint := next_logpoint ld,
                next_logpoint := log_number_t (ftell f2 + round1 * LOG_SIZE + size')\<rparr>)"

text \<open>
  \<open>_write_str\<close>, \<open>_write_val\<close> (lines 118-141) and \<open>_log_mod\<close> (lines 271-299). A value is
  written as an \<open>int32_t\<close> when its length is -1 and as \<open>len\<close> bytes of its string
  otherwise; \<open>s4_val_get_int\<close> and \<open>s4_val_get_str\<close> leave their output untouched for a
  value of the other kind, which cannot happen here since the length comes from
  \<open>_get_val_len\<close> of the same value.
\<close>

definition write_str :: "abi \<Rightarrow> out_file \<Rightarrow> string \<Rightarrow> int \<Rightarrow> out_file" where
  "write_str a f str len = fwrite a f (W_str (take (nat len) str))"

fun write_val :: "abi \<Rightarrow> out_file \<Rightarrow> s4_val \<Rightarrow> int \<Rightarrow> out_file" where
  "write_val a f (S4_Int i) len =
     (if len = -1 then fwrite a f (W_int32 i) else write_str a f [] len)"
| "write_val a f (S4_Str s) len =
     (if len = -1 then fwrite a f (W_int32 0) else write_str a f s len)"

definition log_mod ::
  "abi \<Rightarrow> out_file s4_log_data_t \<Rightarrow> log_type_t \<Rightarrow> string \<Rightarrow> s4_val \<Rightarrow> string \<Rightarrow> s4_val \<Rightarrow> string
     \<Rightarrow> out_file s4_log_data_t" where
  "log_mod a ld type key_a val_a key_b val_b src =
     (case logfile ld of
        None \<Rightarrow> ld
      | Some f0 \<Rightarrow>
          let ka_len = int (length key_a);
              kb_len = int (length key_b);
              s_len = int (length src);
              va_len = get_val_len val_a;
              vb_len = get_val_len val_b;
              size' = get_size (ka_len, va_len, kb_len, vb_len, s_len);
              ld1 = log_write_header a ld type size'
          in (case logfile ld1 of
                None \<Rightarrow> ld1
              | Some f \<Rightarrow>
                  let f1 = fwrite a f (W_mod_header ka_len va_len kb_len vb_len s_len);
                      f2 = write_str a f1 key_a ka_len;
                      f3 = write_val a f2 val_a va_len;
                      f4 = write_str a f3 key_b kb_len;
                      f5 = write_val a f4 val_b vb_len;
                      f6 = write_str a f5 src s_len
                  in ld1\<lparr>logfile := Some f6\<rparr>))"

text \<open>\<open>_log_simple\<close>, lines 306-313.\<close>

definition log_simple :: "abi \<Rightarrow> out_file s4_log_data_t \<Rightarrow> log_type_t \<Rightarrow> out_file s4_log_data_t" where
  "log_simple a ld type = log_write_header a ld type 0"

text \<open>
  \<open>_log_checkpoint\<close>, lines 320-332. The CHECKPOINT header announces
  \<open>sizeof (int32_t)\<close> bytes of data and \<open>fwrite\<close> then writes \<open>last_synced\<close> in
  \<open>sizeof (log_number_t)\<close> bytes. The function does not test the file: with a \<open>NULL\<close>
  file the call of \<open>fwrite\<close> has no defined result, which is \<open>None\<close> here.
\<close>

definition log_checkpoint :: "abi \<Rightarrow> out_file s4_log_data_t \<Rightarrow> out_file s4_log_data_t option" where
  "log_checkpoint a ld =
     (let ld1 = log_simple a ld LOG_ENTRY_BEGIN;
          ld2 = log_write_header a ld1 LOG_ENTRY_CHECKPOINT sizeof_int32_t
      in (case logfile ld2 of
            None \<Rightarrow> None
          | Some f \<Rightarrow>
              let ld3 = ld2\<lparr>logfile := Some (fwrite a f (W_log_number (last_synced ld2)))\<rparr>;
                  ld4 = ld3\<lparr>last_checkpoint := last_synced ld3\<rparr>
              in Some (log_simple a ld4 LOG_ENTRY_END)))"

text \<open>
  \<open>_log_write\<close>, lines 350-393. The result is the value returned and the log data as
  the call leaves it. Both sides of the comparison of line 364 are sums in
  \<open>log_number_t\<close>. \<open>_start_sync\<close> (which wakes the sync thread) and \<open>_log_flush\<close> do not
  change the log data.
\<close>

fun log_write_entry :: "abi \<Rightarrow> out_file s4_log_data_t \<Rightarrow> oplist_entry \<Rightarrow> out_file s4_log_data_t" where
  "log_write_entry a ld (OP_ADD key_a val_a key_b val_b src) =
     log_mod a ld LOG_ENTRY_ADD key_a val_a key_b val_b src"
| "log_write_entry a ld (OP_DEL key_a val_a key_b val_b src) =
     log_mod a ld LOG_ENTRY_DEL key_a val_a key_b val_b src"
| "log_write_entry a ld OP_WRITING = log_simple a ld LOG_ENTRY_WRITING"

definition log_write :: "abi \<Rightarrow> out_file s4_log_data_t \<Rightarrow> oplist_t \<Rightarrow> int \<times> out_file s4_log_data_t" where
  "log_write a ld list =
     (case estimate_size a list 0 of (size', writing) \<Rightarrow>
        if logfile ld = None \<or> size' = 0 then (1, ld)
        else
          let ld1 = (if writing \<noteq> 0 then ld\<lparr>last_synced := last_logpoint ld\<rparr> else ld) in
          if log_number_t (next_logpoint ld1 + size') > log_number_t (last_checkpoint ld1 + LOG_SIZE)
          then (writing, ld1)
          else
            let ld2 = log_simple a ld1 LOG_ENTRY_BEGIN;
                ld3 = foldl (log_write_entry a) ld2 list;
                ld4 = log_simple a ld3 LOG_ENTRY_END
            in (1, ld4))"

text \<open>
  A little-endian platform on which the 64-bit counter is aligned to 8 bytes:
  \<open>sizeof (struct log_header) = 16\<close>, with the type in the first four bytes and the
  counter in the last eight. \<open>le_int\<close> reads bytes as an unsigned number and \<open>le_int32\<close>
  four bytes as a signed one.
\<close>

definition le_int :: "string \<Rightarrow> int" where
  "le_int bs = foldr (\<lambda>c n. of_char c + 256 * n) bs 0"

definition le_int32 :: "string \<Rightarrow> int" where
  "le_int32 bs =
     (let n = le_int (take 4 bs) in if n \<ge> 2147483648 then n - 4294967296 else n)"

definition lp64 :: abi where
  "lp64 = \<lparr>sizeof_log_header = 16,
           decode_log_header = (\<lambda>bs. (le_int (take 4 bs), le_int (take 8 (drop 8 bs)))),
           decode_mod_header =
             (\<lambda>bs. (le_int32 bs, le_int32 (drop 4 bs), le_int32 (drop 8 bs),
                    le_int32 (drop 12 bs), le_int32 (drop 16 bs))),
           decode_int32 = le_int32,
           decode_log_number = (\<lambda>bs. le_int (take 8 bs))\<rparr>"

text \<open>The number of bytes written to a file.\<close>

definition bytes_written :: "abi \<Rightarrow> out_file \<Rightarrow> int" where
  "bytes_written a f = (\<Sum>(off, w)\<leftarrow>fwrites f. written_size a w)"

text \<open>
  Example states of the log on that platform: a log that has just been created (one INIT
  record of 16 bytes written), a log whose next log point is \<open>LOG_SIZE\<close> past the last
  checkpoint, a log with 307 bytes left before that limit, and a log whose next log point
  is 40 below \<open>2 ^ 64\<close>, with the last checkpoint less than \<open>LOG_SIZE\<close> behind it; and an
  oplist that adds six relations with integer values.
\<close>

definition fresh_log :: "out_file s4_log_data_t" where
  "fresh_log = \<lparr>logfile = Some \<lparr>fpos = 16, fwrites = []\<rparr>, last_checkpoint = 0, last_synced = 0,
     last_logpoint = 0, next_logpoint = 16\<rparr>"


definition nearly_full_log :: "out_file s4_log_data_t" where
  "nearly_full_log = \<lparr>logfile = Some \<lparr>fpos = 2096845, fwrites = []\<rparr>, last_checkpoint = 0,
     last_synced = 0, last_logpoint = 2096829, next_logpoint = 2096845\<rparr>"

definition six_adds :: oplist_t where
  "six_adds = replicate 6 (OP_ADD ''k'' (S4_Int 1) ''k'' (S4_Int 2) ''s'')"



section \<open>The write-ahead log: redo (log.c)\<close>

text \<open>
  A file that is read: its bytes and the position of the stream. \<open>fread\<close> returns the
  bytes it could read, at most \<open>n\<close>, and moves the position past them. A call
  \<open>fread (ptr, size, 1, file)\<close> returns 1 exactly when \<open>size\<close> is not zero and all its
  bytes were read. \<open>fseek\<close> with \<open>SEEK_SET\<close> fails on a negative offset.
\<close>

record in_file =
  contents :: string
  rpos :: nat

definition fread_in :: "in_file \<Rightarrow> nat \<Rightarrow> string \<times> in_file" where
  "fread_in f n =
     (let bs = take n (drop (rpos f) (contents f))
      in (bs, f\<lparr>rpos := rpos f + length bs\<rparr>))"

definition fread_one :: "string \<Rightarrow> nat \<Rightarrow> bool" where
  "fread_one bs size' = (size' > 0 \<and> length bs = size')"

definition fseek_in :: "in_file \<Rightarrow> int \<Rightarrow> in_file option" where
  "fseek_in f offset = (if offset < 0 then None else Some (f\<lparr>rpos := nat offset\<rparr>))"

definition rewind_in :: "in_file \<Rightarrow> in_file" where
  "rewind_in f = f\<lparr>rpos := 0\<rparr>"

definition ftell_in :: "in_file \<Rightarrow> int" where
  "ftell_in f = int (rpos f)"

text \<open>
  \<open>_read_str\<close>, lines 401-420. The bytes read are terminated by a NUL and looked up in
  the string table, so the string is the bytes up to the first NUL among them.
  Modelled from the spec: the string table (section 4.1) is not in the sources;
  \<open>_string_lookup\<close>, \<open>_string_lookup_val\<close> and \<open>_int_lookup_val\<close> return the interned
  string or value of the given content, never \<open>NULL\<close>.
\<close>

definition read_str :: "in_file \<Rightarrow> int \<Rightarrow> string option \<times> in_file" where
  "read_str f len =
     (if len < 0 \<or> len > LOG_SIZE then (None, f)
      else
        (case fread_in f (nat len) of (bs, f') \<Rightarrow>
           if int (length bs) \<noteq> len then (None, f')
           else (Some (takeWhile (\<lambda>c. c \<noteq> CHR 0x00) bs), f')))"

text \<open>\<open>_read_val\<close>, lines 428-444; the \<open>fread\<close> of the integer is not checked.\<close>

definition read_val :: "abi \<Rightarrow> in_file \<Rightarrow> int \<Rightarrow> s4_val option \<times> in_file" where
  "read_val a f len =
     (if len = -1 then
        (case fread_in f (nat sizeof_int32_t) of (bs, f') \<Rightarrow> (Some (S4_Int (decode_int32 a bs)), f'))
      else
        (case read_str f len of
           (Some str, f') \<Rightarrow> (Some (S4_Str str), f')
         | (None, f') \<Rightarrow> (None, f')))"

text \<open>
  \<open>_read_mod\<close>, lines 454-484. The result is the value returned, the file and the
  oplist (\<open>None\<close> for \<open>NULL\<close>). All five fields are read before any of them is tested.
  \<open>_oplist_insert_add\<close> and \<open>_oplist_insert_del\<close> append an entry to the oplist.
\<close>

definition read_mod ::
  "abi \<Rightarrow> in_file \<Rightarrow> oplist_t option \<Rightarrow> int \<Rightarrow> int \<times> in_file \<times> oplist_t option" where
  "read_mod a f list type =
     (case list of
        None \<Rightarrow> (0, f, None)
      | Some l \<Rightarrow>
          (case fread_in f (nat sizeof_mod_header) of (bs, f0) \<Rightarrow>
           case decode_mod_header a bs of (ka_len, va_len, kb_len, vb_len, s_len) \<Rightarrow>
           case read_str f0 ka_len of (key_a, f1) \<Rightarrow>
           case read_val a f1 va_len of (val_a, f2) \<Rightarrow>
           case read_str f2 kb_len of (key_b, f3) \<Rightarrow>
           case read_val a f3 vb_len of (val_b, f4) \<Rightarrow>
           case read_str f4 s_len of (src, f5) \<Rightarrow>
             (case (key_a, val_a, key_b, val_b, src) of
                (Some ka, Some va, Some kb, Some vb, Some s) \<Rightarrow>
                  if type = log_type_code LOG_ENTRY_ADD
                    then (1, f5, Some (l @ [OP_ADD ka va kb vb s]))
                  else if type = log_type_code LOG_ENTRY_DEL
                    then (1, f5, Some (l @ [OP_DEL ka va kb vb s]))
                  else (1, f5, Some l)
              | _ \<Rightarrow> (0, f5, Some l))))"

text \<open>
  The state of the loop of \<open>_log_redo\<close>, lines 526-589: the file, the local variables
  and the fields of the log data, and the store. Modelled from the spec: the store and
  \<open>_oplist_execute\<close> are not in the sources; \<open>_oplist_execute (oplist, 0)\<close> applies the
  entries of the oplist to the store in order (section 4.8), and \<open>r_applied\<close> lists the
  oplists that were executed, in order.

  The local \<open>pos\<close> is not a field: it is set from \<open>ftell\<close> at the end of every round of the
  loop, and before the loop the stream is positioned at \<open>pos\<close> by \<open>fseek\<close>, so that it is
  the position of the stream, converted to \<open>log_number_t\<close>, whenever the loop condition
  is evaluated. \<open>round\<close>, \<open>new_checkpoint\<close>, \<open>new_synced\<close> and \<open>last_valid_logpoint\<close> are of
  type \<open>log_number_t\<close> too, so that the -1 the source assigns to and compares with the
  two middle ones is \<open>log_number_t (- 1)\<close>.
\<close>

record redo_state =
  r_file :: in_file
  r_round :: int
  r_new_checkpoint :: int
  r_new_synced :: int
  r_last_valid_logpoint :: int
  r_oplist :: "oplist_t option"
  r_invalid_entry :: bool
  r_last_checkpoint :: int
  r_last_synced :: int
  r_last_logpoint :: int
  r_next_logpoint :: int
  r_applied :: "oplist_t list"

definition pos_here :: "redo_state \<Rightarrow> int" where
  "pos_here st = log_number_t (ftell_in (r_file st))"

text \<open>The header at the position of the stream, and the loop condition of line 526.\<close>

definition header_here :: "abi \<Rightarrow> redo_state \<Rightarrow> int \<times> int" where
  "header_here a st = decode_log_header a (fst (fread_in (r_file st) (sizeof_log_header a)))"

definition redo_cond :: "abi \<Rightarrow> redo_state \<Rightarrow> bool" where
  "redo_cond a st =
     (\<not> r_invalid_entry st
      \<and> fread_one (fst (fread_in (r_file st) (sizeof_log_header a))) (sizeof_log_header a)
      \<and> snd (header_here a st) = log_number_t (pos_here st + r_round st * LOG_SIZE))"

text \<open>The body of the loop, lines 530-588, for the header just read.\<close>

definition redo_body :: "abi \<Rightarrow> redo_state \<Rightarrow> redo_state" where
  "redo_body a st =
     (let f = snd (fread_in (r_file st) (sizeof_log_header a));
          type = fst (header_here a st);
          st1 = st\<lparr>r_file := f, r_last_logpoint := r_next_logpoint st\<rparr>;
          st2 =
            (if type = log_type_code LOG_ENTRY_WRAP then
               st1\<lparr>r_round := log_number_t (r_round st1 + 1), r_file := rewind_in f\<rparr>
             else if type = log_type_code LOG_ENTRY_DEL \<or> type = log_type_code LOG_ENTRY_ADD then
               (case read_mod a f (r_oplist st1) type of (rc, f', list) \<Rightarrow>
                  st1\<lparr>r_file := f', r_oplist := list,
                       r_invalid_entry := (if rc = 0 then True else r_invalid_entry st1)\<rparr>)
             else if type = log_type_code LOG_ENTRY_CHECKPOINT then
               (case fread_in f sizeof_log_number_t of (bs, f') \<Rightarrow>
                  st1\<lparr>r_file := f', r_new_checkpoint := decode_log_number a bs\<rparr>)
             else if type = log_type_code LOG_ENTRY_WRITING then
               st1\<lparr>r_new_synced := r_last_logpoint st1\<rparr>
             else if type = log_type_code LOG_ENTRY_BEGIN then
               st1\<lparr>r_oplist := Some [], r_new_checkpoint := log_number_t (- 1),
                    r_new_synced := log_number_t (- 1)\<rparr>
             else if type = log_type_code LOG_ENTRY_END then
               (case r_oplist st1 of
                  None \<Rightarrow> st1
                | Some l \<Rightarrow>
                    (let st' = st1\<lparr>r_applied := r_applied st1 @ [l], r_oplist := None\<rparr>;
                         st'' =
                           (if r_new_checkpoint st' \<noteq> log_number_t (- 1) then
                              st'\<lparr>r_last_synced := r_new_checkpoint st',
                                  r_last_checkpoint := r_new_checkpoint st'\<rparr>
                            else if r_new_synced st' \<noteq> log_number_t (- 1) then
                              st'\<lparr>r_last_synced := r_new_synced st'\<rparr>
                            else st')
                     in st''\<lparr>r_last_valid_logpoint := r_last_logpoint st''\<rparr>))
             else if type = log_type_code LOG_ENTRY_INIT then st1
             else st1\<lparr>r_invalid_entry := True\<rparr>)
      in st2\<lparr>r_next_logpoint := log_number_t (pos_here st2 + r_round st2 * LOG_SIZE)\<rparr>)"

text \<open>
  Why the loop ends: a round that does not end it either moves the stream forward in
  the same rotation, or is a WRAP record, which starts the next rotation at offset 0.
  After a WRAP the loop goes on only when the header at offset 0 carries the number of
  the new rotation, and then that header does not carry the number of the rotation after
  it, so that a second WRAP ends the loop.
\<close>

definition rewinds_left :: "abi \<Rightarrow> redo_state \<Rightarrow> nat" where
  "rewinds_left a st =
     (if snd (decode_log_header a (take (sizeof_log_header a) (contents (r_file st))))
           = log_number_t (0 + log_number_t (r_round st + 1) * LOG_SIZE)
      then 1 else 0)"

definition redo_measure :: "abi \<Rightarrow> redo_state \<Rightarrow> nat" where
  "redo_measure a st =
     (if redo_cond a st
      then 1 + rewinds_left a st * (length (contents (r_file st)) + 1)
             + (length (contents (r_file st)) - rpos (r_file st))
      else 0)"

subsection \<open>Arithmetic of the log counters\<close>

lemma LOG_SIZE_pos: "LOG_SIZE > 0"
  by (simp add: LOG_SIZE_def)

lemma log_number_t_id: "0 \<le> x \<Longrightarrow> x < 2 ^ 64 \<Longrightarrow> log_number_t x = x"
  by (simp add: log_number_t_def)

lemma log_number_t_range: "0 \<le> log_number_t x \<and> log_number_t x < 2 ^ 64"
  by (simp add: log_number_t_def)

lemma log_number_t_idem [simp]: "log_number_t (log_number_t x) = log_number_t x"
  by (simp add: log_number_t_def)

lemma LOG_SIZE_dvd: "LOG_SIZE dvd 2 ^ 64"
proof -
  have "(2::int) ^ 64 = LOG_SIZE * 2 ^ 43" by (simp add: LOG_SIZE_def)
  then show ?thesis by (rule dvdI)
qed

lemma log_number_t_mod_LOG_SIZE: "log_number_t x mod LOG_SIZE = x mod LOG_SIZE"
  unfolding log_number_t_def using LOG_SIZE_dvd by (rule mod_mod_cancel)

text \<open>Two consecutive rotations give different numbers to the same position.\<close>

lemma next_rotation_differs:
  "log_number_t (p + log_number_t (r + 1) * LOG_SIZE) \<noteq> log_number_t (p + r * LOG_SIZE)"
proof
  assume e: "log_number_t (p + log_number_t (r + 1) * LOG_SIZE) = log_number_t (p + r * LOG_SIZE)"
  have "(p + (r + 1) mod 2 ^ 64 * LOG_SIZE) mod 2 ^ 64 = (p + (r + 1) * LOG_SIZE) mod 2 ^ 64"
    by (metis mod_add_right_eq mod_mult_left_eq)
  with e have "(p + (r + 1) * LOG_SIZE) mod 2 ^ 64 = (p + r * LOG_SIZE) mod 2 ^ 64"
    by (simp add: log_number_t_def)
  then have "(2::int) ^ 64 dvd (p + (r + 1) * LOG_SIZE) - (p + r * LOG_SIZE)"
    by (simp add: mod_eq_dvd_iff)
  moreover have "(p + (r + 1) * LOG_SIZE) - (p + r * LOG_SIZE) = LOG_SIZE"
    by (simp add: algebra_simps)
  ultimately have "(2::int) ^ 64 dvd LOG_SIZE" by simp
  then have "(2::int) ^ 64 \<le> LOG_SIZE" by (rule zdvd_imp_le) (rule LOG_SIZE_pos)
  then show False by (simp add: LOG_SIZE_def)
qed


subsection \<open>The loop of the redo ends\<close>

lemma fread_in_contents [simp]: "contents (snd (fread_in f n)) = contents f"
  by (simp add: fread_in_def Let_def)

lemma fread_in_rpos: "rpos (snd (fread_in f n)) = rpos f + length (fst (fread_in f n))"
  by (simp add: fread_in_def Let_def)

lemma fread_in_rpos_le: "rpos f \<le> rpos (snd (fread_in f n))"
  by (simp add: fread_in_def Let_def)

lemma read_str_contents [simp]: "contents (snd (read_str f len)) = contents f"
  by (simp add: read_str_def fread_in_def Let_def split: prod.splits)

lemma read_str_rpos_le: "rpos f \<le> rpos (snd (read_str f len))"
  by (simp add: read_str_def fread_in_def Let_def split: prod.splits)

lemma read_val_contents [simp]: "contents (snd (read_val a f len)) = contents f"
proof (cases "len = -1")
  case True
  then show ?thesis by (simp add: read_val_def fread_in_def Let_def)
next
  case False
  have "snd (read_val a f len) = snd (read_str f len)"
    using False by (simp add: read_val_def split: prod.splits option.splits)
  then show ?thesis by simp
qed

lemma read_val_rpos_le: "rpos f \<le> rpos (snd (read_val a f len))"
proof (cases "len = -1")
  case True
  then show ?thesis by (simp add: read_val_def fread_in_def Let_def)
next
  case False
  have "snd (read_val a f len) = snd (read_str f len)"
    using False by (simp add: read_val_def split: prod.splits option.splits)
  then show ?thesis by (simp add: read_str_rpos_le)
qed

lemma read_mod_file:
  "read_mod a f list type = (rc, f', list')
    \<Longrightarrow> contents f' = contents f \<and> rpos f \<le> rpos f'"
proof (cases list)
  case None
  assume "read_mod a f list type = (rc, f', list')"
  with None show ?thesis by (simp add: read_mod_def)
next
  case (Some l)
  assume r: "read_mod a f list type = (rc, f', list')"
  define f0 where "f0 = snd (fread_in f (nat sizeof_mod_header))"
  define h where "h = decode_mod_header a (fst (fread_in f (nat sizeof_mod_header)))"
  obtain ka_len va_len kb_len vb_len s_len where h: "h = (ka_len, va_len, kb_len, vb_len, s_len)"
    by (cases h) auto
  define f1 where "f1 = snd (read_str f0 ka_len)"
  define f2 where "f2 = snd (read_val a f1 va_len)"
  define f3 where "f3 = snd (read_str f2 kb_len)"
  define f4 where "f4 = snd (read_val a f3 vb_len)"
  define f5 where "f5 = snd (read_str f4 s_len)"
  have "f' = f5"
    using r Some h
    by (auto simp: read_mod_def f0_def h_def f1_def f2_def f3_def f4_def f5_def
        split: prod.splits option.splits if_splits)
  moreover have "contents f5 = contents f"
    by (simp add: f5_def f4_def f3_def f2_def f1_def f0_def)
  moreover have "rpos f \<le> rpos f5"
  proof -
    have "rpos f \<le> rpos f0" unfolding f0_def by (rule fread_in_rpos_le)
    also have "\<dots> \<le> rpos f1" unfolding f1_def by (rule read_str_rpos_le)
    also have "\<dots> \<le> rpos f2" unfolding f2_def by (rule read_val_rpos_le)
    also have "\<dots> \<le> rpos f3" unfolding f3_def by (rule read_str_rpos_le)
    also have "\<dots> \<le> rpos f4" unfolding f4_def by (rule read_val_rpos_le)
    also have "\<dots> \<le> rpos f5" unfolding f5_def by (rule read_str_rpos_le)
    finally show ?thesis .
  qed
  ultimately show ?thesis by simp
qed

lemma redo_body_progress:
  assumes c: "redo_cond a st"
  shows "contents (r_file (redo_body a st)) = contents (r_file st)
     \<and> ((r_round (redo_body a st) = r_round st \<and> rpos (r_file st) < rpos (r_file (redo_body a st)))
        \<or> (r_round (redo_body a st) = log_number_t (r_round st + 1)
            \<and> rpos (r_file (redo_body a st)) = 0))"
proof -
  define f where "f = snd (fread_in (r_file st) (sizeof_log_header a))"
  have fc: "contents f = contents (r_file st)" by (simp add: f_def)
  have "length (fst (fread_in (r_file st) (sizeof_log_header a))) = sizeof_log_header a"
    and "sizeof_log_header a > 0"
    using c by (simp_all add: redo_cond_def fread_one_def)
  then have fp: "rpos (r_file st) < rpos f"
    unfolding f_def by (simp add: fread_in_rpos)
  obtain rc f' l' where rm: "read_mod a f (r_oplist st) (fst (header_here a st)) = (rc, f', l')"
    by (cases "read_mod a f (r_oplist st) (fst (header_here a st))") auto
  from read_mod_file [OF rm] have m: "contents f' = contents f" "rpos f \<le> rpos f'" by simp_all
  obtain bs f'' where ck: "fread_in f sizeof_log_number_t = (bs, f'')"
    by (cases "fread_in f sizeof_log_number_t") auto
  have k: "contents f'' = contents f" "rpos f \<le> rpos f''"
    using fread_in_contents [of f sizeof_log_number_t] fread_in_rpos_le [of f sizeof_log_number_t] ck
    by simp_all
  show ?thesis
    using fc fp m k rm ck
    by (simp add: redo_body_def Let_def f_def [symmetric] rewind_in_def split: option.splits)
qed

lemma redo_cond_header:
  assumes c: "redo_cond a st"
  shows "rpos (r_file st) < length (contents (r_file st))"
    and "snd (decode_log_header a (take (sizeof_log_header a) (drop (rpos (r_file st)) (contents (r_file st)))))
          = log_number_t (pos_here st + r_round st * LOG_SIZE)"
proof -
  have len: "length (take (sizeof_log_header a) (drop (rpos (r_file st)) (contents (r_file st))))
      = sizeof_log_header a"
    and pos: "sizeof_log_header a > 0"
    using c by (simp_all add: redo_cond_def fread_one_def fread_in_def Let_def)
  from len pos show "rpos (r_file st) < length (contents (r_file st))"
    by (cases "rpos (r_file st) < length (contents (r_file st))") auto
  show "snd (decode_log_header a (take (sizeof_log_header a) (drop (rpos (r_file st)) (contents (r_file st)))))
          = log_number_t (pos_here st + r_round st * LOG_SIZE)"
    using c by (simp add: redo_cond_def header_here_def fread_in_def Let_def)
qed

lemma redo_body_decreases:
  assumes c: "redo_cond a st"
  shows "redo_measure a (redo_body a st) < redo_measure a st"
proof (cases "redo_cond a (redo_body a st)")
  case False
  then show ?thesis using c by (simp add: redo_measure_def)
next
  case True
  let ?st' = "redo_body a st"
  let ?len = "length (contents (r_file st))"
  from redo_body_progress [OF c]
  have cont: "contents (r_file ?st') = contents (r_file st)"
    and prog: "(r_round ?st' = r_round st \<and> rpos (r_file st) < rpos (r_file ?st'))
       \<or> (r_round ?st' = log_number_t (r_round st + 1) \<and> rpos (r_file ?st') = 0)"
    by simp_all
  from prog show ?thesis
  proof
    assume same: "r_round ?st' = r_round st \<and> rpos (r_file st) < rpos (r_file ?st')"
    then have "rewinds_left a ?st' = rewinds_left a st"
      by (simp add: rewinds_left_def cont)
    moreover have "?len - rpos (r_file ?st') < ?len - rpos (r_file st)"
      using same redo_cond_header(1) [OF c] by arith
    ultimately show ?thesis using c True by (simp add: redo_measure_def cont)
  next
    assume wrap: "r_round ?st' = log_number_t (r_round st + 1) \<and> rpos (r_file ?st') = 0"
    have h: "snd (decode_log_header a (take (sizeof_log_header a) (contents (r_file st))))
        = log_number_t (0 + log_number_t (r_round st + 1) * LOG_SIZE)"
      using redo_cond_header(2) [OF True] wrap
      by (simp add: cont pos_here_def ftell_in_def log_number_t_def)
    then have l: "rewinds_left a st = 1" by (simp add: rewinds_left_def)
    have "snd (decode_log_header a (take (sizeof_log_header a) (contents (r_file st))))
        \<noteq> log_number_t (0 + log_number_t (log_number_t (r_round st + 1) + 1) * LOG_SIZE)"
      unfolding h by (rule next_rotation_differs [symmetric])
    then have l': "rewinds_left a ?st' = 0" using wrap by (simp add: rewinds_left_def cont)
    show ?thesis using c True l l' wrap by (simp add: redo_measure_def cont)
  qed
qed

subsection \<open>The loop and the whole of \<open>_log_redo\<close>\<close>

text \<open>
  The loop of lines 526-589. The condition reads a header unless \<open>invalid_entry\<close> is
  set, so that the loop leaves the stream after the header that ended it.
\<close>

definition redo_exit :: "abi \<Rightarrow> redo_state \<Rightarrow> redo_state" where
  "redo_exit a st =
     (if r_invalid_entry st then st
      else st\<lparr>r_file := snd (fread_in (r_file st) (sizeof_log_header a))\<rparr>)"

function redo_loop :: "abi \<Rightarrow> redo_state \<Rightarrow> redo_state" where
  "redo_loop a st = (if redo_cond a st then redo_loop a (redo_body a st) else redo_exit a st)"
  by pat_completeness auto
termination
  by (relation "measure (\<lambda>(a, st). redo_measure a st)") (auto intro: redo_body_decreases)

declare redo_loop.simps [simp del]

text \<open>
  The database handle, as far as \<open>_log_redo\<close> is concerned: the log data and the store
  (the oplists applied to it so far).
\<close>

record s4_t =
  s4_log_data :: "in_file s4_log_data_t"
  s4_applied :: "oplist_t list"

text \<open>
  \<open>_log_redo\<close>, lines 492-602, in three parts. The first, lines 500-521, ends the call
  early (\<open>Inl\<close>) or gives the state in which the loop starts (\<open>Inr\<close>). An early end is
  \<open>return 0\<close>, or no defined result (\<open>None\<close>) when the file is \<open>NULL\<close>, which the function
  does not test. \<open>_reread_file\<close>, which reloads the database when the log has wrapped
  around since the last write, is not in the sources and is a parameter.
\<close>

definition redo_preamble ::
  "abi \<Rightarrow> (s4_t \<Rightarrow> s4_t) \<Rightarrow> s4_t \<Rightarrow> (int \<times> s4_t) option + redo_state" where
  "redo_preamble a reread_file s4 =
     (case logfile (s4_log_data s4) of
        None \<Rightarrow> Inl None
      | Some f \<Rightarrow>
          (case fseek_in f (last_logpoint (s4_log_data s4) mod LOG_SIZE) of
             None \<Rightarrow> Inl (Some (0, s4))
           | Some f1 \<Rightarrow>
               (case fread_in f1 (sizeof_log_header a) of (bs, f2) \<Rightarrow>
                  let s4b = s4\<lparr>s4_log_data := (s4_log_data s4)\<lparr>logfile := Some f2\<rparr>\<rparr> in
                  if \<not> fread_one bs (sizeof_log_header a) then Inl (Some (0, s4b))
                  else
                    let s4c = (if snd (decode_log_header a bs) \<noteq> last_logpoint (s4_log_data s4b)
                               then reread_file s4b else s4b);
                        ld = s4_log_data s4c;
                        next = log_number_t (last_logpoint ld + int (sizeof_log_header a));
                        ld' = ld\<lparr>next_logpoint := next\<rparr>
                    in (case logfile ld of
                          None \<Rightarrow> Inl None
                        | Some f3 \<Rightarrow>
                            (case fseek_in f3 (next mod LOG_SIZE) of
                               None \<Rightarrow> Inl (Some (0, s4c\<lparr>s4_log_data := ld'\<rparr>))
                             | Some f4 \<Rightarrow>
                                 Inr \<lparr>r_file = f4,
                                      r_round = next div LOG_SIZE,
                                      r_new_checkpoint = log_number_t (- 1),
                                      r_new_synced = log_number_t (- 1),
                                      r_last_valid_logpoint = last_logpoint ld,
                                      r_oplist = None,
                                      r_invalid_entry = False,
                                      r_last_checkpoint = last_checkpoint ld,
                                      r_last_synced = last_synced ld,
                                      r_last_logpoint = last_logpoint ld,
                                      r_next_logpoint = next,
                                      r_applied = s4_applied s4c\<rparr>)))))"

text \<open>
  Lines 591-601: an oplist left open is freed without being executed, the log points
  are set from \<open>last_valid_logpoint\<close>, and the stream is positioned for the next write
  (the result of that \<open>fseek\<close> is not tested).
\<close>

definition redo_finish :: "abi \<Rightarrow> redo_state \<Rightarrow> s4_t" where
  "redo_finish a st =
     (let next = log_number_t (r_last_valid_logpoint st + int (sizeof_log_header a));
          f = (case fseek_in (r_file st) (next mod LOG_SIZE) of None \<Rightarrow> r_file st | Some f' \<Rightarrow> f')
      in \<lparr>s4_log_data =
            \<lparr>logfile = Some f,
             last_checkpoint = r_last_checkpoint st,
             last_synced = r_last_synced st,
             last_logpoint = r_last_valid_logpoint st,
             next_logpoint = next\<rparr>,
          s4_applied = r_applied st\<rparr>)"

definition log_redo :: "abi \<Rightarrow> (s4_t \<Rightarrow> s4_t) \<Rightarrow> s4_t \<Rightarrow> (int \<times> s4_t) option" where
  "log_redo a reread_file s4 =
     (case redo_preamble a reread_file s4 of
        Inl r \<Rightarrow> r
      | Inr st \<Rightarrow> Some (1, redo_finish a (redo_loop a st)))"

subsection \<open>The specification of recovery: the records of a log\<close>

text \<open>
  Section 4.9 describes recovery on the records of the log. The definitions named
  \<open>spec_...\<close> state that description, with the places where the scan of the code stops
  besides the two that the section names; they are written on the bytes of the log and
  offsets into them, and use none of the definitions of the redo above.

  Every record begins with a header, its type and its counter. \<open>spec_header_at\<close> is the
  header that stands at an offset, when the bytes of a whole header are there. The
  counter expected at an offset in a rotation is \<open>position + rotation * LOG_SIZE\<close>, as a
  64-bit number.
\<close>

definition spec_header_at :: "abi \<Rightarrow> string \<Rightarrow> nat \<Rightarrow> (int \<times> int) option" where
  "spec_header_at a log p =
     (let bs = take (sizeof_log_header a) (drop p log) in
      if bs \<noteq> [] \<and> length bs = sizeof_log_header a then Some (decode_log_header a bs) else None)"

definition spec_expected_counter :: "nat \<Rightarrow> int \<Rightarrow> int" where
  "spec_expected_counter p r = (int p + r * LOG_SIZE) mod 2 ^ 64"

text \<open>
  An ADD or DEL record carries a \<open>mod_header\<close> of five lengths followed by the two keys,
  the two values and the source. A string of length \<open>len\<close> is \<open>len\<close> bytes, of which a C
  string keeps those before the first NUL; a length that is negative or above \<open>LOG_SIZE\<close>,
  or a string that is cut short by the end of the log, makes the record unreadable. A
  value of length -1 is an integer of 32 bits, read without a check from the four bytes
  that follow (or as many as there are); any other length is that of a string. Each
  function gives what it read and the offset after it.
\<close>

definition spec_payload_str :: "string \<Rightarrow> nat \<Rightarrow> int \<Rightarrow> (string \<times> nat) option" where
  "spec_payload_str log q len =
     (if 0 \<le> len \<and> len \<le> LOG_SIZE \<and> length (take (nat len) (drop q log)) = nat len
      then Some (takeWhile (\<lambda>c. c \<noteq> CHR 0x00) (take (nat len) (drop q log)), q + nat len)
      else None)"

definition spec_payload_val :: "abi \<Rightarrow> string \<Rightarrow> nat \<Rightarrow> int \<Rightarrow> (s4_val \<times> nat) option" where
  "spec_payload_val a log q len =
     (if len = -1
      then Some (S4_Int (decode_int32 a (take 4 (drop q log))), q + length (take 4 (drop q log)))
      else (case spec_payload_str log q len of
              None \<Rightarrow> None
            | Some (str, q') \<Rightarrow> Some (S4_Str str, q')))"

definition spec_payload_at ::
  "abi \<Rightarrow> string \<Rightarrow> nat \<Rightarrow> ((string \<times> s4_val \<times> string \<times> s4_val \<times> string) \<times> nat) option" where
  "spec_payload_at a log q =
     (case decode_mod_header a (take 20 (drop q log)) of (ka_len, va_len, kb_len, vb_len, s_len) \<Rightarrow>
      case spec_payload_str log (q + length (take 20 (drop q log))) ka_len of
        None \<Rightarrow> None
      | Some (key_a, q1) \<Rightarrow>
      case spec_payload_val a log q1 va_len of
        None \<Rightarrow> None
      | Some (val_a, q2) \<Rightarrow>
      case spec_payload_str log q2 kb_len of
        None \<Rightarrow> None
      | Some (key_b, q3) \<Rightarrow>
      case spec_payload_val a log q3 vb_len of
        None \<Rightarrow> None
      | Some (val_b, q4) \<Rightarrow>
      case spec_payload_str log q4 s_len of
        None \<Rightarrow> None
      | Some (src, q5) \<Rightarrow> Some ((key_a, val_a, key_b, val_b, src), q5))"

text \<open>
  What recovery makes of a record: a BEGIN, an END with its log point (the counter of
  the record), an ADD or DEL with the operation it carries, or a record that neither
  opens, fills nor closes a transaction (WRAP, INIT, WRITING, CHECKPOINT).
\<close>

datatype log_event = EV_begin | EV_end int | EV_op oplist_entry | EV_other

text \<open>
  The record at offset \<open>p\<close> in rotation \<open>r\<close>, with the offset and the rotation of the
  record after it; \<open>pending\<close> tells whether a BEGIN has been read that no END has
  followed. There is no record, and the scan stops, where no whole header can be read,
  where the counter of the header is not the expected one, where its type is none of
  the eight, and at an ADD or DEL that stands outside a BEGIN ... END pair or is
  unreadable. A WRAP record sends the scan to offset 0 of the next rotation; a
  CHECKPOINT record carries a counter of 8 bytes.
\<close>

definition spec_record_at ::
  "abi \<Rightarrow> string \<Rightarrow> nat \<Rightarrow> int \<Rightarrow> bool \<Rightarrow> (log_event \<times> nat \<times> int) option" where
  "spec_record_at a log p r pending =
     (case spec_header_at a log p of
        None \<Rightarrow> None
      | Some (t, n) \<Rightarrow>
          let q = p + sizeof_log_header a in
          if n \<noteq> spec_expected_counter p r then None
          else if t = log_type_code LOG_ENTRY_BEGIN then Some (EV_begin, q, r)
          else if t = log_type_code LOG_ENTRY_END then Some (EV_end n, q, r)
          else if t = log_type_code LOG_ENTRY_ADD \<or> t = log_type_code LOG_ENTRY_DEL then
            (if \<not> pending then None
             else (case spec_payload_at a log q of
                     None \<Rightarrow> None
                   | Some ((key_a, val_a, key_b, val_b, src), q') \<Rightarrow>
                       Some (EV_op (if t = log_type_code LOG_ENTRY_ADD
                                    then OP_ADD key_a val_a key_b val_b src
                                    else OP_DEL key_a val_a key_b val_b src), q', r)))
          else if t = log_type_code LOG_ENTRY_WRAP then Some (EV_other, 0, (r + 1) mod 2 ^ 64)
          else if t = log_type_code LOG_ENTRY_CHECKPOINT
            then Some (EV_other, q + length (take 8 (drop q log)), r)
          else if t = log_type_code LOG_ENTRY_WRITING \<or> t = log_type_code LOG_ENTRY_INIT
            then Some (EV_other, q, r)
          else None)"

fun spec_pending_after :: "log_event \<Rightarrow> bool \<Rightarrow> bool" where
  "spec_pending_after EV_begin pending = True"
| "spec_pending_after (EV_end n) pending = False"
| "spec_pending_after (EV_op e) pending = pending"
| "spec_pending_after EV_other pending = pending"

text \<open>
  The scan ends for the reason the loop of the redo does: the header at offset 0 cannot
  carry the counters of two consecutive rotations.
\<close>

definition spec_scan_measure :: "abi \<Rightarrow> string \<Rightarrow> nat \<Rightarrow> int \<Rightarrow> bool \<Rightarrow> nat" where
  "spec_scan_measure a log p r pending =
     (if spec_record_at a log p r pending = None then 0
      else 1 + (if map_option snd (spec_header_at a log 0) = Some (spec_expected_counter 0 ((r + 1) mod 2 ^ 64))
                then length log + 1 else 0)
             + (length log - p))"

subsection \<open>The scan of the specification ends\<close>

lemma expected_counter_next:
  "spec_expected_counter p ((r + 1) mod 2 ^ 64) \<noteq> spec_expected_counter p r"
  using next_rotation_differs [of "int p" r] by (simp add: spec_expected_counter_def log_number_t_def)

lemma payload_str_next: "spec_payload_str log q len = Some (str, q') \<Longrightarrow> q \<le> q'"
  by (auto simp: spec_payload_str_def split: if_splits)

lemma payload_val_next: "spec_payload_val a log q len = Some (v, q') \<Longrightarrow> q \<le> q'"
  by (auto simp: spec_payload_val_def split: if_splits option.splits dest: payload_str_next)

lemma payload_at_next:
  assumes "spec_payload_at a log q = Some (x, q')"
  shows "q \<le> q'"
proof -
  obtain ka_len va_len kb_len vb_len s_len
    where h: "decode_mod_header a (take 20 (drop q log)) = (ka_len, va_len, kb_len, vb_len, s_len)"
    by (cases "decode_mod_header a (take 20 (drop q log))") auto
  from assms h obtain key_a q1 val_a q2 key_b q3 val_b q4 src
    where s: "spec_payload_str log (q + length (take 20 (drop q log))) ka_len = Some (key_a, q1)"
      "spec_payload_val a log q1 va_len = Some (val_a, q2)"
      "spec_payload_str log q2 kb_len = Some (key_b, q3)"
      "spec_payload_val a log q3 vb_len = Some (val_b, q4)"
      "spec_payload_str log q4 s_len = Some (src, q')"
    by (auto simp: spec_payload_at_def split: option.splits)
  have "q \<le> q + length (take 20 (drop q log))" by simp
  also have "\<dots> \<le> q1" using s(1) by (rule payload_str_next)
  also have "\<dots> \<le> q2" using s(2) by (rule payload_val_next)
  also have "\<dots> \<le> q3" using s(3) by (rule payload_str_next)
  also have "\<dots> \<le> q4" using s(4) by (rule payload_val_next)
  also have "\<dots> \<le> q'" using s(5) by (rule payload_str_next)
  finally show ?thesis .
qed

lemma header_at_Some:
  "spec_header_at a log p = Some h \<Longrightarrow> p < length log \<and> 0 < sizeof_log_header a"
  by (cases "p < length log") (auto simp: spec_header_at_def Let_def split: if_splits)

lemma record_at_next:
  assumes "spec_record_at a log p r pending = Some (ev, p', r')"
  shows "p < length log"
    and "map_option snd (spec_header_at a log p) = Some (spec_expected_counter p r)"
    and "(r' = r \<and> p < p') \<or> (p' = 0 \<and> r' = (r + 1) mod 2 ^ 64)"
proof -
  from assms obtain t n where h: "spec_header_at a log p = Some (t, n)"
    by (auto simp: spec_record_at_def split: option.splits)
  from header_at_Some [OF h] show "p < length log" by simp
  from header_at_Some [OF h] have H: "0 < sizeof_log_header a" by simp
  from assms h show "map_option snd (spec_header_at a log p) = Some (spec_expected_counter p r)"
    by (auto simp: spec_record_at_def Let_def split: if_splits)
  from assms h H show "(r' = r \<and> p < p') \<or> (p' = 0 \<and> r' = (r + 1) mod 2 ^ 64)"
    by (auto simp: spec_record_at_def Let_def split: if_splits option.splits dest!: payload_at_next)
qed

lemma record_at_decreases:
  assumes s: "spec_record_at a log p r pending = Some (ev, p', r')"
  shows "spec_scan_measure a log p' r' pending' < spec_scan_measure a log p r pending"
proof (cases "spec_record_at a log p' r' pending' = None")
  case True
  then show ?thesis using s by (simp add: spec_scan_measure_def)
next
  case False
  then obtain ev2 p2 r2 where s': "spec_record_at a log p' r' pending' = Some (ev2, p2, r2)" by auto
  note n = record_at_next [OF s]
  note n' = record_at_next [OF s']
  from n(3) show ?thesis
  proof
    assume same: "r' = r \<and> p < p'"
    then have "length log - p' < length log - p" using n(1) by arith
    then show ?thesis using s s' same by (simp add: spec_scan_measure_def)
  next
    assume wrap: "p' = 0 \<and> r' = (r + 1) mod 2 ^ 64"
    with n'(2) have h: "map_option snd (spec_header_at a log 0) = Some (spec_expected_counter 0 ((r + 1) mod 2 ^ 64))"
      by simp
    have "spec_expected_counter 0 ((r' + 1) mod 2 ^ 64) \<noteq> spec_expected_counter 0 r'"
      by (rule expected_counter_next)
    then have "map_option snd (spec_header_at a log 0) \<noteq> Some (spec_expected_counter 0 ((r' + 1) mod 2 ^ 64))"
      using h wrap by auto
    then show ?thesis using s s' h wrap by (auto simp: spec_scan_measure_def)
  qed
qed


subsection \<open>The specification of recovery: transactions\<close>

text \<open>
  The records the scan goes through, from offset \<open>p\<close> in rotation \<open>r\<close> to the place
  where it stops.
\<close>

function spec_records :: "abi \<Rightarrow> string \<Rightarrow> nat \<Rightarrow> int \<Rightarrow> bool \<Rightarrow> log_event list" where
  "spec_records a log p r pending =
     (case spec_record_at a log p r pending of
        None \<Rightarrow> []
      | Some (ev, p', r') \<Rightarrow> ev # spec_records a log p' r' (spec_pending_after ev pending))"
  by pat_completeness auto
termination
  by (relation "measure (\<lambda>(a, log, p, r, pending). spec_scan_measure a log p r pending)")
     (auto intro: record_at_decreases)

declare spec_records.simps [simp del]

text \<open>
  The transactions of a sequence of records: ADD and DEL records are buffered into an
  oplist held from a BEGIN to the next END; the END completes the transaction, which is
  the oplist with the log point of its END; records outside a pair are discarded, and so
  is a pair that is not completed. \<open>cur\<close> is the oplist open at the start, if any.
\<close>

fun transactions :: "log_event list \<Rightarrow> oplist_t option \<Rightarrow> (oplist_t \<times> int) list" where
  "transactions [] cur = []"
| "transactions (EV_begin # es) cur = transactions es (Some [])"
| "transactions (EV_op e # es) cur = transactions es (map_option (\<lambda>l. l @ [e]) cur)"
| "transactions (EV_end c # es) None = transactions es None"
| "transactions (EV_end c # es) (Some l) = (l, c) # transactions es None"
| "transactions (EV_other # es) cur = transactions es cur"

text \<open>The log point recovery ends on: that of the last completed transaction, if any.\<close>

definition last_end :: "(oplist_t \<times> int) list \<Rightarrow> int \<Rightarrow> int" where
  "last_end ts start = (if ts = [] then start else snd (last ts))"

text \<open>A header type that is none of the eight of \<open>log_type_t\<close>.\<close>

definition unknown_type :: "int \<Rightarrow> bool" where
  "unknown_type t = (t \<notin> range log_type_code)"

text \<open>The oplist that is open after a record, and after a sequence of records.\<close>

fun open_after :: "log_event \<Rightarrow> oplist_t option \<Rightarrow> oplist_t option" where
  "open_after EV_begin cur = Some []"
| "open_after (EV_op e) cur = map_option (\<lambda>l. l @ [e]) cur"
| "open_after (EV_end c) cur = None"
| "open_after EV_other cur = cur"

fun open_after_all :: "log_event list \<Rightarrow> oplist_t option \<Rightarrow> oplist_t option" where
  "open_after_all [] cur = cur"
| "open_after_all (ev # es) cur = open_after_all es (open_after ev cur)"

text \<open>
  Where recovery starts: it seeks to \<open>last_logpoint\<close>, reads the header there and, when
  its counter is not \<open>last_logpoint\<close>, has the database read again (\<open>reread_file\<close>);
  \<open>spec_scan_start\<close> is the database as the scan finds it, with the stream after that header,
  and there is none when the log is not open or no whole header stands at
  \<open>last_logpoint\<close>. The record at \<open>last_logpoint\<close> is a header without data, so the first
  record to scan stands one header further, at the offset and in the rotation that
  \<open>spec_first_record\<close> gives; \<open>spec_scanned\<close> are the records the scan goes through from there.
\<close>

definition spec_scan_start :: "abi \<Rightarrow> (s4_t \<Rightarrow> s4_t) \<Rightarrow> s4_t \<Rightarrow> s4_t option" where
  "spec_scan_start a reread_file s4 =
     (case logfile (s4_log_data s4) of
        None \<Rightarrow> None
      | Some f \<Rightarrow>
          let p = nat (last_logpoint (s4_log_data s4) mod LOG_SIZE) in
          (case spec_header_at a (contents f) p of
             None \<Rightarrow> None
           | Some (t, n) \<Rightarrow>
               let after = s4\<lparr>s4_log_data := (s4_log_data s4)
                             \<lparr>logfile := Some \<lparr>contents = contents f,
                                                rpos = p + sizeof_log_header a\<rparr>\<rparr>\<rparr>
               in Some (if n = last_logpoint (s4_log_data s4) then after
                        else reread_file after)))"

definition spec_first_record :: "abi \<Rightarrow> int \<Rightarrow> nat \<times> int" where
  "spec_first_record a logpoint =
     (let next = (logpoint + int (sizeof_log_header a)) mod 2 ^ 64
      in (nat (next mod LOG_SIZE), next div LOG_SIZE))"

definition spec_scanned :: "abi \<Rightarrow> string \<Rightarrow> int \<Rightarrow> log_event list" where
  "spec_scanned a log logpoint =
     (case spec_first_record a logpoint of (p, r) \<Rightarrow> spec_records a log p r False)"

text \<open>
  Examples, on the little-endian platform \<open>lp64\<close>. \<open>enc_header\<close> gives the 16 bytes of a
  header from the value of its type and its counter, and \<open>example_payload\<close> the 28 bytes
  that an ADD or DEL record carries for the relation \<open>(a, b, c, 7, s)\<close>, whose second
  value is an integer.

  \<open>example_log\<close>: an INIT record at offset 0, a transaction that adds the relation
  (BEGIN at 16, ADD at 32, END at 76), and a transaction that deletes it (BEGIN at 92,
  DEL at 108) whose END record, at 152, carries the counter 99.

  \<open>unpaired_log\<close>: an INIT record at offset 0, a DEL record at 16 that no BEGIN
  precedes, and then a whole transaction (BEGIN at 60, DEL at 76, END at 120); every
  record carries the counter of its offset.
\<close>

fun enc_le :: "nat \<Rightarrow> int \<Rightarrow> string" where
  "enc_le 0 n = []"
| "enc_le (Suc k) n = char_of (n mod 256) # enc_le k (n div 256)"

definition enc_header :: "int \<Rightarrow> int \<Rightarrow> string" where
  "enc_header t n = enc_le 4 t @ replicate 4 (CHR 0x00) @ enc_le 8 n"

definition enc_int32 :: "int \<Rightarrow> string" where
  "enc_int32 i = enc_le 4 (i mod 4294967296)"

definition example_payload :: string where
  "example_payload =
     enc_int32 1 @ enc_int32 1 @ enc_int32 1 @ enc_int32 (- 1) @ enc_int32 1
     @ ''a'' @ ''b'' @ ''c'' @ enc_int32 7 @ ''s''"

definition example_log :: string where
  "example_log =
     enc_header 0x87654321 0
     @ enc_header 0x1 16 @ enc_header 0xaddadd 32 @ example_payload
     @ enc_header 0x2 76
     @ enc_header 0x1 92 @ enc_header 0xde1e7e 108 @ example_payload
     @ enc_header 0x2 99 @ replicate 8 (CHR 0x00)"

definition unpaired_log :: string where
  "unpaired_log =
     enc_header 0x87654321 0
     @ enc_header 0xde1e7e 16 @ example_payload
     @ enc_header 0x1 60 @ enc_header 0xde1e7e 76 @ example_payload
     @ enc_header 0x2 120 @ replicate 16 (CHR 0x00)"

definition s4_on :: "string \<Rightarrow> s4_t" where
  "s4_on log =
     \<lparr>s4_log_data = \<lparr>logfile = Some \<lparr>contents = log, rpos = 0\<rparr>, last_checkpoint = 0,
        last_synced = 0, last_logpoint = 0, next_logpoint = 0\<rparr>,
      s4_applied = []\<rparr>"


section \<open>Properties of the comparator\<close>

lemma strcmp_range: "strcmp a b = -1 \<or> strcmp a b = 0 \<or> strcmp a b = 1"
  by (induction a b rule: strcmp.induct) auto

lemma strcmp_eq0: "strcmp a b = 0 \<longleftrightarrow> a = b"
  by (induction a b rule: strcmp.induct) auto

lemma strcmp_flip: "strcmp a b < 0 \<longleftrightarrow> strcmp b a > 0"
  by (induction a b rule: strcmp.induct) auto

lemma strcmp_trans: "strcmp a b < 0 \<Longrightarrow> strcmp b c < 0 \<Longrightarrow> strcmp a c < 0"
proof (induction a b arbitrary: c rule: strcmp.induct)
  case (1)
  then show ?case by simp
next
  case (2 y ys)
  then show ?case by (cases c) simp_all
next
  case (3 x xs)
  then show ?case by simp
next
  case (4 x xs y ys)
  show ?case
  proof (cases c)
    case Nil
    with 4(3) show ?thesis by simp
  next
    case (Cons z zs)
    show ?thesis
    proof (cases "(of_char x :: nat) < of_char y")
      case True
      with 4(3) Cons show ?thesis by (auto split: if_splits)
    next
      case False
      with 4(2) have xy: "(of_char x :: nat) = of_char y" and r: "strcmp xs ys < 0"
        by (simp_all split: if_splits)
      show ?thesis
      proof (cases "(of_char y :: nat) < of_char z")
        case True
        with xy Cons show ?thesis by simp
      next
        case False
        with 4(3) Cons have yz: "(of_char y :: nat) = of_char z" and r2: "strcmp ys zs < 0"
          by (simp_all split: if_splits)
        from 4(1) [OF _ _ r r2] xy have "strcmp xs zs < 0" by simp
        with xy yz Cons show ?thesis by simp
      qed
    qed
  qed
qed


lemma val_comp_eq0: "val_comp a b = 0 \<longleftrightarrow> a = b"
  by (cases a; cases b) (auto simp: strcmp_eq0)

lemma val_comp_flip: "val_comp a b < 0 \<longleftrightarrow> val_comp b a > 0"
  by (cases a; cases b) (auto simp: strcmp_flip)

lemma val_comp_trans: "val_comp a b < 0 \<Longrightarrow> val_comp b c < 0 \<Longrightarrow> val_comp a c < 0"
  by (cases a; cases b; cases c) (auto split: if_splits intro: strcmp_trans)


section \<open>Properties of the value index\<close>

subsection \<open>Binary search over the buckets\<close>

lemma bsearch_loop_spec:
  assumes mono: "sign_mono (\<lambda>v. func v fd) bs"
  shows "lo \<le> hi \<Longrightarrow> hi \<le> length bs
     \<Longrightarrow> \<forall>k<lo. func (it_val (bs ! k)) fd < 0
     \<Longrightarrow> \<forall>k. hi \<le> k \<and> k < length bs \<longrightarrow> func (it_val (bs ! k)) fd > 0
     \<Longrightarrow> bsearch_post (\<lambda>v. func v fd) bs (bsearch_loop bs func fd lo hi)"
proof (induction "hi - lo" arbitrary: lo hi rule: less_induct)
  case less
  note mono' = mono [unfolded sign_mono_def, rule_format]
  show ?case
  proof (cases "lo < hi")
    case False
    with less.prems show ?thesis
      by (subst bsearch_loop.simps) (auto simp: bsearch_post_def)
  next
    case True
    define m where "m = (hi + lo) div 2"
    define c where "c = func (it_val (bs ! m)) fd"
    have m: "lo \<le> m" "m < hi" using True by (auto simp: m_def)
    have mlen: "m < length bs" using m less.prems(2) by simp
    have unfold: "bsearch_loop bs func fd lo hi =
        (if c = 0 then m else if c < 0 then bsearch_loop bs func fd (m + 1) hi
         else bsearch_loop bs func fd lo m)"
      using True by (subst bsearch_loop.simps) (simp add: Let_def m_def c_def)
    consider "c = 0" | "c < 0" | "c > 0" by linarith
    then show ?thesis
    proof cases
      case 1
      then show ?thesis using mlen unfold by (simp add: bsearch_post_def c_def)
    next
      case 2
      have lows: "\<forall>k<m + 1. func (it_val (bs ! k)) fd < 0"
      proof (intro allI impI)
        fix k assume "k < m + 1"
        then consider "k = m" | "k < m" by linarith
        then show "func (it_val (bs ! k)) fd < 0"
        proof cases
          case 1 then show ?thesis using 2 c_def by simp
        next
          case 2
          with mono' [of k m] mlen \<open>c < 0\<close> c_def show ?thesis by simp
        qed
      qed
      have "bsearch_post (\<lambda>v. func v fd) bs (bsearch_loop bs func fd (m + 1) hi)"
        using less.hyps [of hi "m + 1"] m less.prems(2,4) lows by simp
      then show ?thesis using 2 unfold by simp
    next
      case 3
      have highs: "\<forall>k. m \<le> k \<and> k < length bs \<longrightarrow> func (it_val (bs ! k)) fd > 0"
      proof (intro allI impI)
        fix k assume k: "m \<le> k \<and> k < length bs"
        then consider "k = m" | "m < k" by linarith
        then show "func (it_val (bs ! k)) fd > 0"
        proof cases
          case 1 then show ?thesis using 3 c_def by simp
        next
          case 2
          with mono' [of m k] k \<open>c > 0\<close> c_def show ?thesis by simp
        qed
      qed
      have "bsearch_post (\<lambda>v. func v fd) bs (bsearch_loop bs func fd lo m)"
        using less.hyps [of m lo] m less.prems(2,3) highs by simp
      then show ?thesis using 3 unfold by simp
    qed
  qed
qed

lemma bsearch_spec:
  "sign_mono (\<lambda>v. func v fd) (ix_data index)
    \<Longrightarrow> bsearch_post (\<lambda>v. func v fd) (ix_data index) (bsearch index func fd)"
  unfolding bsearch_def ix_size_def
  by (rule bsearch_loop_spec) auto

lemma sorted_sign_mono:
  "index_sorted index \<Longrightarrow> sign_mono (\<lambda>v. val_comp v val) (ix_data index)"
  unfolding index_sorted_def sign_mono_def
proof (intro allI impI conjI)
  fix i j
  assume s: "sorted_wrt (\<lambda>a b. val_comp a b < 0) (map it_val (ix_data index))"
    and ij: "i < j \<and> j < length (ix_data index)"
  then have lt: "val_comp (it_val (ix_data index ! i)) (it_val (ix_data index ! j)) < 0"
    by (auto simp: sorted_wrt_iff_nth_less dest!: spec [of _ i] spec [of _ j])
  { assume "0 < val_comp (it_val (ix_data index ! i)) val"
    then have "val_comp val (it_val (ix_data index ! i)) < 0" by (simp add: val_comp_flip)
    then have "val_comp val (it_val (ix_data index ! j)) < 0" using lt by (rule val_comp_trans)
    then show "0 < val_comp (it_val (ix_data index ! j)) val" by (simp add: val_comp_flip) }
  { assume "val_comp (it_val (ix_data index ! j)) val < 0"
    with lt show "val_comp (it_val (ix_data index ! i)) val < 0" by (rule val_comp_trans) }
qed


subsection \<open>Insertion keeps the buckets sorted\<close>

lemma index_insert_data_val [simp]:
  "it_val (index_insert_data new_addr junk n b new_data) = it_val b"
  by (simp add: index_insert_data_def Let_def)

lemma insert_vals:
  assumes "bsearch index val_comp val \<le> ix_size index"
  shows "map it_val (ix_data (snd (index_insert new_addr junk index val new_data))) =
    (let i = bsearch index val_comp val; vs = map it_val (ix_data index) in
     if i \<ge> ix_size index \<or> val_comp val (it_val (ix_data index ! i)) \<noteq> 0
     then take i vs @ [val] @ drop i vs else vs)"
proof -
  define i where "i = bsearch index val_comp val"
  define index1 where "index1 = index_insert_bucket new_addr index val i"
  have ile: "i \<le> length (ix_data index)" using assms by (simp add: i_def ix_size_def)
  have len1: "i < length (ix_data index1)"
    using ile by (auto simp: index1_def index_insert_bucket_def ix_size_def)
  have "map it_val (ix_data (snd (index_insert new_addr junk index val new_data)))
      = map it_val (ix_data index1)"
    using len1
    by (simp add: index_insert_def Let_def i_def [symmetric] index1_def [symmetric]
        map_update list_update_same_conv)
  also have "\<dots> = (if i \<ge> ix_size index \<or> val_comp val (it_val (ix_data index ! i)) \<noteq> 0
     then take i (map it_val (ix_data index)) @ [val] @ drop i (map it_val (ix_data index))
     else map it_val (ix_data index))"
    by (simp add: index1_def index_insert_bucket_def take_map drop_map)
  finally show ?thesis by (simp add: Let_def i_def)
qed

lemma index_insert_sorted:
  assumes s: "index_sorted index"
  shows "index_sorted (snd (index_insert new_addr junk index val new_data))"
proof -
  define i where "i = bsearch index val_comp val"
  define vs where "vs = map it_val (ix_data index)"
  have post: "bsearch_post (\<lambda>v. val_comp v val) (ix_data index) i"
    unfolding i_def by (rule bsearch_spec) (rule sorted_sign_mono [OF s])
  then have ile: "i \<le> ix_size index" by (simp add: bsearch_post_def ix_size_def)
  have sv: "sorted_wrt (\<lambda>a b. val_comp a b < 0) vs" using s by (simp add: index_sorted_def vs_def)
  show ?thesis
  proof (cases "i \<ge> ix_size index \<or> val_comp val (it_val (ix_data index ! i)) \<noteq> 0")
    case False
    then show ?thesis using s insert_vals [OF ile [unfolded i_def], of new_addr junk new_data]
      by (simp add: index_sorted_def Let_def i_def)
  next
    case True
    then have nz: "\<not> (i < length (ix_data index) \<and> val_comp (it_val (ix_data index ! i)) val = 0)"
      by (auto simp: ix_size_def val_comp_eq0)
    with post have lo: "\<forall>k<i. val_comp (it_val (ix_data index ! k)) val < 0"
      and hi: "\<forall>k. i \<le> k \<and> k < length (ix_data index) \<longrightarrow> val_comp (it_val (ix_data index ! k)) val > 0"
      by (auto simp: bsearch_post_def)
    have a: "\<forall>x\<in>set (take i vs). val_comp x val < 0"
      using lo ile by (auto simp: vs_def in_set_conv_nth ix_size_def)
    have b: "\<forall>y\<in>set (drop i vs). val_comp val y < 0"
    proof
      fix y assume "y \<in> set (drop i vs)"
      then obtain k where "k < length vs - i" "y = vs ! (i + k)"
        by (auto simp: in_set_conv_nth)
      then show "val_comp val y < 0" using hi [rule_format, of "i + k"]
        by (simp add: vs_def val_comp_flip)
    qed
    have c: "\<forall>x\<in>set (take i vs). \<forall>y\<in>set (drop i vs). val_comp x y < 0"
      using a b by (blast intro: val_comp_trans)
    have "sorted_wrt (\<lambda>a b. val_comp a b < 0) (take i vs @ [val] @ drop i vs)"
      using sv a b c by (simp add: sorted_wrt_append sorted_wrt_take sorted_wrt_drop)
    then show ?thesis using True insert_vals [OF ile [unfolded i_def], of new_addr junk new_data]
      by (simp add: index_sorted_def Let_def i_def vs_def)
  qed
qed

subsection \<open>The search: scanning and collecting\<close>

lemma set_foldl_hash_insert:
  "set (foldl g_hash_table_insert found ks) = set found \<union> set ks"
  by (induction ks arbitrary: found) (auto simp: g_hash_table_insert_def)

lemma distinct_foldl_hash_insert:
  "distinct found \<Longrightarrow> distinct (foldl g_hash_table_insert found ks)"
  by (induction ks arbitrary: found) (auto simp: g_hash_table_insert_def)

lemma scan_left_spec:
  "let r = scan_left bs func fd i in
     r \<le> i \<and> (i \<ge> -1 \<longrightarrow> r \<ge> -1) \<and>
     (\<forall>k. r < k \<and> k \<le> i \<longrightarrow> func (it_val (bs ! nat k)) fd = 0) \<and>
     (r \<ge> 0 \<longrightarrow> func (it_val (bs ! nat r)) fd \<noteq> 0)"
proof (induction bs func fd i rule: scan_left.induct)
  case (1 bs func fd i)
  show ?case
  proof (cases "i \<ge> 0 \<and> func (it_val (bs ! nat i)) fd = 0")
    case False
    then show ?thesis by (subst scan_left.simps) (auto simp: Let_def)
  next
    case True
    have eq: "scan_left bs func fd i = scan_left bs func fd (i - 1)"
      using True by (subst scan_left.simps) simp
    from "1.IH" [OF True] have ih: "scan_left bs func fd (i - 1) \<le> i - 1"
      "scan_left bs func fd (i - 1) \<ge> -1"
      "\<forall>k. scan_left bs func fd (i - 1) < k \<and> k \<le> i - 1 \<longrightarrow> func (it_val (bs ! nat k)) fd = 0"
      "scan_left bs func fd (i - 1) \<ge> 0 \<longrightarrow> func (it_val (bs ! nat (scan_left bs func fd (i - 1)))) fd \<noteq> 0"
      using True by (simp_all add: Let_def)
    have "\<forall>k. scan_left bs func fd (i - 1) < k \<and> k \<le> i \<longrightarrow> func (it_val (bs ! nat k)) fd = 0"
    proof (intro allI impI)
      fix k assume k: "scan_left bs func fd (i - 1) < k \<and> k \<le> i"
      then consider "k = i" | "k \<le> i - 1" by linarith
      then show "func (it_val (bs ! nat k)) fd = 0"
        using True ih(3) k by cases auto
    qed
    then show ?thesis unfolding eq Let_def using ih by auto
  qed
qed

lemma collect_spec:
  "i \<le> e \<Longrightarrow> e \<le> length bs
    \<Longrightarrow> \<forall>k. i \<le> k \<and> k < e \<longrightarrow> func (it_val (bs ! k)) fd = 0
    \<Longrightarrow> e < length bs \<longrightarrow> func (it_val (bs ! e)) fd \<noteq> 0
    \<Longrightarrow> set (collect bs func fd i found) =
          set found \<union> {od_data c | k c. i \<le> k \<and> k < e \<and> c \<in> set (it_data (bs ! k))}
        \<and> (distinct found \<longrightarrow> distinct (collect bs func fd i found))"
proof (induction "e - i" arbitrary: i found)
  case 0
  then have "i = e" by simp
  with 0 show ?case by (subst (1 2) collect.simps) auto
next
  case (Suc d)
  then have ie: "i < e" and z: "func (it_val (bs ! i)) fd = 0" by auto
  let ?found' = "foldl g_hash_table_insert found (map od_data (it_data (bs ! i)))"
  have eq: "collect bs func fd i found = collect bs func fd (i + 1) ?found'"
    using ie z Suc.prems(2) by (subst collect.simps) simp
  have ih: "set (collect bs func fd (i + 1) ?found') =
          set ?found' \<union> {od_data c | k c. i + 1 \<le> k \<and> k < e \<and> c \<in> set (it_data (bs ! k))}
        \<and> (distinct ?found' \<longrightarrow> distinct (collect bs func fd (i + 1) ?found'))"
    using Suc.hyps(1) [of "i + 1" ?found'] Suc.hyps(2) Suc.prems ie by auto
  have split: "{od_data c | k c. i \<le> k \<and> k < e \<and> c \<in> set (it_data (bs ! k))} =
      od_data ` set (it_data (bs ! i)) \<union> {od_data c | k c. i + 1 \<le> k \<and> k < e \<and> c \<in> set (it_data (bs ! k))}"
  proof (intro set_eqI iffI)
    fix x assume "x \<in> {od_data c | k c. i \<le> k \<and> k < e \<and> c \<in> set (it_data (bs ! k))}"
    then obtain k c where x: "x = od_data c" and k: "i \<le> k" "k < e" and c: "c \<in> set (it_data (bs ! k))"
      by blast
    show "x \<in> od_data ` set (it_data (bs ! i)) \<union> {od_data c | k c. i + 1 \<le> k \<and> k < e \<and> c \<in> set (it_data (bs ! k))}"
    proof (cases "k = i")
      case True with x c show ?thesis by blast
    next
      case False
      with k have "i + 1 \<le> k" by simp
      with x k c show ?thesis by blast
    qed
  next
    fix x assume "x \<in> od_data ` set (it_data (bs ! i)) \<union> {od_data c | k c. i + 1 \<le> k \<and> k < e \<and> c \<in> set (it_data (bs ! k))}"
    then show "x \<in> {od_data c | k c. i \<le> k \<and> k < e \<and> c \<in> set (it_data (bs ! k))}"
    proof
      assume "x \<in> od_data ` set (it_data (bs ! i))"
      with ie show ?thesis by auto
    next
      assume "x \<in> {od_data c | k c. i + 1 \<le> k \<and> k < e \<and> c \<in> set (it_data (bs ! k))}"
      then obtain k c where "x = od_data c" "i + 1 \<le> k" "k < e" "c \<in> set (it_data (bs ! k))" by blast
      then have "x = od_data c \<and> i \<le> k \<and> k < e \<and> c \<in> set (it_data (bs ! k))" by simp
      then show ?thesis by blast
    qed
  qed
  show ?case unfolding eq split using ih
    by (auto simp: set_foldl_hash_insert distinct_foldl_hash_insert)
qed

lemma monotone_sign_mono:
  assumes s: "index_sorted index" and m: "monotone_pred f"
  shows "sign_mono f (ix_data index)"
  unfolding sign_mono_def
proof (intro allI impI)
  fix i j assume ij: "i < j \<and> j < length (ix_data index)"
  with s have "val_comp (it_val (ix_data index ! i)) (it_val (ix_data index ! j)) < 0"
    by (auto simp: index_sorted_def sorted_wrt_iff_nth_less dest!: spec [of _ i] spec [of _ j])
  with m show "(0 < f (it_val (ix_data index ! i)) \<longrightarrow> 0 < f (it_val (ix_data index ! j))) \<and>
        (f (it_val (ix_data index ! j)) < 0 \<longrightarrow> f (it_val (ix_data index ! i)) < 0)"
    unfolding monotone_pred_def by blast
qed

lemma search_found:
  assumes mono: "sign_mono (\<lambda>v. func v fd) bs"
    and i: "i < length bs" and z: "func (it_val (bs ! i)) fd = 0"
  shows "set (collect bs func fd (nat (scan_left bs func fd (int i) + 1)) []) =
           {od_data c | b c. b \<in> set bs \<and> func (it_val b) fd = 0 \<and> c \<in> set (it_data b)}
         \<and> distinct (collect bs func fd (nat (scan_left bs func fd (int i) + 1)) [])"
proof -
  let ?f = "\<lambda>k. func (it_val (bs ! k)) fd"
  note mono' = mono [unfolded sign_mono_def, rule_format]
  define r where "r = scan_left bs func fd (int i)"
  define a where "a = nat (r + 1)"
  have r: "r \<le> int i" "r \<ge> -1"
    "\<forall>k. r < k \<and> k \<le> int i \<longrightarrow> func (it_val (bs ! nat k)) fd = 0"
    "r \<ge> 0 \<longrightarrow> func (it_val (bs ! nat r)) fd \<noteq> 0"
    using scan_left_spec [of bs func fd "int i"] by (simp_all add: Let_def r_def)
  have "r \<noteq> int i" using r(4) z by auto
  with r(1) have "r < int i" by simp
  then have a_le: "a \<le> i" by (simp add: a_def)
  have zl: "?f k = 0" if "a \<le> k" "k \<le> i" for k
    using r(3) [rule_format, of "int k"] that by (simp add: a_def)
  have negl: "?f k < 0" if "k < a" for k
  proof -
    from that have r0: "r \<ge> 0" and ra: "nat r = a - 1" and "a > 0" by (auto simp: a_def)
    with r(4) have nz: "?f (a - 1) \<noteq> 0" by simp
    have "\<not> ?f (a - 1) > 0"
      using mono' [of "a - 1" i] a_le i z \<open>a > 0\<close> by auto
    with nz have neg: "?f (a - 1) < 0" by linarith
    show ?thesis
    proof (cases "k = a - 1")
      case True with neg show ?thesis by simp
    next
      case False
      with that have "k < a - 1" by simp
      with mono' [of k "a - 1"] neg a_le i show ?thesis by simp
    qed
  qed
  define e where "e = (LEAST k. i < k \<and> (k \<ge> length bs \<or> ?f k \<noteq> 0))"
  have ex: "i < length bs \<and> (length bs \<ge> length bs \<or> ?f (length bs) \<noteq> 0)" using i by simp
  have e1: "i < e \<and> (e \<ge> length bs \<or> ?f e \<noteq> 0)"
    unfolding e_def by (rule LeastI [of "\<lambda>k. i < k \<and> (k \<ge> length bs \<or> ?f k \<noteq> 0)", OF ex])
  have e_le: "e \<le> length bs"
    unfolding e_def by (rule Least_le [of "\<lambda>k. i < k \<and> (k \<ge> length bs \<or> ?f k \<noteq> 0)", OF ex])
  have zr: "?f k = 0" if "i < k" "k < e" for k
  proof (rule ccontr)
    assume "?f k \<noteq> 0"
    with that have "i < k \<and> (k \<ge> length bs \<or> ?f k \<noteq> 0)" by simp
    then have "e \<le> k" unfolding e_def by (rule Least_le)
    with that show False by simp
  qed
  have zs: "\<forall>k. a \<le> k \<and> k < e \<longrightarrow> ?f k = 0"
  proof (intro allI impI)
    fix k assume "a \<le> k \<and> k < e"
    then show "?f k = 0" using zl [of k] zr [of k] by (cases "k \<le> i") auto
  qed
  have posr: "?f k > 0" if "e \<le> k" "k < length bs" for k
  proof -
    from that e_le have el: "e < length bs" by simp
    with e1 have nz: "?f e \<noteq> 0" by simp
    have "\<not> ?f e < 0" using mono' [of i e] e1 el z by auto
    with nz have pos: "?f e > 0" by linarith
    show ?thesis
    proof (cases "k = e")
      case True with pos show ?thesis by simp
    next
      case False
      with that have "e < k" by simp
      with mono' [of e k] pos that show ?thesis by simp
    qed
  qed
  have stop: "e < length bs \<longrightarrow> ?f e \<noteq> 0" using e1 by auto
  have ae: "a \<le> e" using a_le e1 by simp
  from collect_spec [of a e bs func fd "[]"] ae e_le zs stop
  have c: "set (collect bs func fd a []) =
      {od_data c | k c. a \<le> k \<and> k < e \<and> c \<in> set (it_data (bs ! k))}"
    and d: "distinct (collect bs func fd a [])" by simp_all
  have "{od_data c | k c. a \<le> k \<and> k < e \<and> c \<in> set (it_data (bs ! k))} =
      {od_data c | b c. b \<in> set bs \<and> func (it_val b) fd = 0 \<and> c \<in> set (it_data b)}"
  proof (intro set_eqI iffI)
    fix x assume "x \<in> {od_data c | k c. a \<le> k \<and> k < e \<and> c \<in> set (it_data (bs ! k))}"
    then obtain k c where x: "x = od_data c" "a \<le> k" "k < e" "c \<in> set (it_data (bs ! k))" by blast
    then have "bs ! k \<in> set bs" "?f k = 0" using e_le zs by auto
    with x show "x \<in> {od_data c | b c. b \<in> set bs \<and> func (it_val b) fd = 0 \<and> c \<in> set (it_data b)}"
      by blast
  next
    fix x assume "x \<in> {od_data c | b c. b \<in> set bs \<and> func (it_val b) fd = 0 \<and> c \<in> set (it_data b)}"
    then obtain b c where x: "x = od_data c" "b \<in> set bs" "func (it_val b) fd = 0" "c \<in> set (it_data b)"
      by blast
    then obtain k where k: "k < length bs" "b = bs ! k" by (auto simp: in_set_conv_nth)
    have "a \<le> k" using negl [of k] x(3) k by (cases "k < a") auto
    moreover have "k < e" using posr [of k] x(3) k by (cases "e \<le> k") auto
    ultimately have "x = od_data c \<and> a \<le> k \<and> k < e \<and> c \<in> set (it_data (bs ! k))"
      using x k by simp
    then show "x \<in> {od_data c | k c. a \<le> k \<and> k < e \<and> c \<in> set (it_data (bs ! k))}" by blast
  qed
  with c d show ?thesis by (simp add: a_def r_def)
qed

lemma monotone_val_comp: "monotone_pred (\<lambda>v. val_comp v d)"
  unfolding monotone_pred_def
proof (intro allI impI conjI)
  fix v w assume lt: "val_comp v w < 0"
  { assume "0 < val_comp v d"
    then have "val_comp d v < 0" by (simp add: val_comp_flip)
    then have "val_comp d w < 0" using lt by (rule val_comp_trans)
    then show "0 < val_comp w d" by (simp add: val_comp_flip) }
  { assume "val_comp w d < 0"
    with lt show "val_comp v d < 0" by (rule val_comp_trans) }
qed

lemma monotone_at_least: "monotone_pred (\<lambda>v. if val_comp v d < 0 then -1 else 0)"
  unfolding monotone_pred_def by (auto intro: val_comp_trans)

subsection \<open>Sequences of operations\<close>

lemma index_create_sorted: "index_sorted index_create"
  by (simp add: index_sorted_def index_create_def)

lemma index_delete_noop:
  "\<forall>b\<in>set (ix_data index). it_data_addr b \<noteq> new_data
    \<Longrightarrow> index_delete junk index val new_data = Inr (0, index)"
  by (auto simp: index_delete_def Let_def ix_size_def)

lemma index_insert_data_addr:
  "it_data_addr (index_insert_data new_addr junk n b new_data) \<in> {it_data_addr b, new_addr}"
  by (simp add: index_insert_data_def Let_def)

lemma index_insert_arrays:
  "array_addrs (snd (index_insert new_addr junk index val new_data)) \<subseteq> insert new_addr (array_addrs index)"
proof -
  define i where "i = bsearch index val_comp val"
  define index1 where "index1 = index_insert_bucket new_addr index val i"
  define b' where "b' = index_insert_data new_addr junk (ix_size index1) (ix_data index1 ! i) new_data"
  have a1: "array_addrs index1 \<subseteq> insert new_addr (array_addrs index)"
    using set_take_subset [of i "ix_data index"] set_drop_subset [of i "ix_data index"]
    by (auto simp: index1_def index_insert_bucket_def array_addrs_def)
  have res: "snd (index_insert new_addr junk index val new_data) = index1\<lparr>ix_data := (ix_data index1)[i := b']\<rparr>"
    by (simp add: index_insert_def Let_def i_def index1_def b'_def)
  show ?thesis
  proof (cases "i < length (ix_data index1)")
    case False
    then show ?thesis using a1 by (simp add: res array_addrs_def list_update_beyond)
  next
    case True
    then have "it_data_addr (ix_data index1 ! i) \<in> array_addrs index1"
      by (simp add: array_addrs_def)
    with index_insert_data_addr [of new_addr junk "ix_size index1" "ix_data index1 ! i" new_data]
    have "it_data_addr b' \<in> insert new_addr (array_addrs index1)"
      by (auto simp: b'_def)
    moreover have "set ((ix_data index1)[i := b']) \<subseteq> insert b' (set (ix_data index1))"
      by (rule set_update_subset_insert)
    ultimately show ?thesis using a1 by (auto simp: res array_addrs_def)
  qed
qed

lemma index_delete_noop_arrays:
  "new_data \<notin> array_addrs index \<Longrightarrow> index_delete junk index val new_data = Inr (0, index)"
  by (rule index_delete_noop) (auto simp: array_addrs_def)

text \<open>
  A sequence in which no deletion passes the address of an occurrence array runs to its
  end and keeps the buckets sorted: its deletions change nothing.
\<close>

lemma apply_ops_safe_sorted:
  "index_sorted index
    \<Longrightarrow> \<forall>x\<in>set ops. op_is_safe (array_addrs index \<union> \<Union> (op_arrays ` set ops)) x
    \<Longrightarrow> \<exists>index'. apply_ops index ops = Inr index' \<and> index_sorted index'"
proof (induction ops arbitrary: index)
  case Nil
  then show ?case by simp
next
  case (Cons x xs)
  show ?case
  proof (cases x)
    case (Insert new_addr junk val new_data)
    let ?i = "snd (index_insert new_addr junk index val new_data)"
    have "array_addrs ?i \<union> \<Union> (op_arrays ` set xs) \<subseteq> array_addrs index \<union> \<Union> (op_arrays ` set (x # xs))"
      using index_insert_arrays [of new_addr junk index val new_data] Insert by auto
    then have "\<forall>y\<in>set xs. op_is_safe (array_addrs ?i \<union> \<Union> (op_arrays ` set xs)) y"
      using Cons.prems(2)
      by (metis (no_types, lifting) index_op.exhaust list.set_intros(2) op_is_safe.simps subsetD)
    moreover have "index_sorted ?i" using Cons.prems(1) by (rule index_insert_sorted)
    ultimately show ?thesis using Cons.IH [of ?i] Insert by simp
  next
    case (Delete junk val new_data)
    with Cons.prems(2) have "new_data \<notin> array_addrs index" by auto
    then have d: "index_delete junk index val new_data = Inr (0, index)"
      by (rule index_delete_noop_arrays)
    have "\<forall>y\<in>set xs. op_is_safe (array_addrs index \<union> \<Union> (op_arrays ` set xs)) y"
      using Cons.prems(2) Delete by simp
    from Cons.IH [OF Cons.prems(1) this] Delete d show ?thesis by simp
  qed
qed


section \<open>Properties of source preferences and fetch specifications\<close>

lemma get_priority_from_spec:
  "\<forall>k<i. k < length (sp_specs sp) \<longrightarrow> \<not> m (sp_specs sp ! k) src
    \<Longrightarrow> first_match m (sp_specs sp) src (get_priority_from m sp src i)"
proof (induction m sp src i rule: get_priority_from.induct)
  case (1 m sp src i)
  show ?case
  proof (cases "i < length (sp_specs sp)")
    case False
    with 1(2) show ?thesis
      by (subst get_priority_from.simps) (auto simp: first_match_def)
  next
    case True
    show ?thesis
    proof (cases "m (sp_specs sp ! i) src")
      case True
      with \<open>i < length (sp_specs sp)\<close> 1(2) show ?thesis
        by (subst get_priority_from.simps) (auto simp: first_match_def)
    next
      case False
      have "\<forall>k<i + 1. k < length (sp_specs sp) \<longrightarrow> \<not> m (sp_specs sp ! k) src"
        using 1(2) False by (auto simp: less_Suc_eq)
      from "1.IH" [OF True False this] True False show ?thesis
        by (subst get_priority_from.simps) simp
    qed
  qed
qed

lemma get_priority_spec: "first_match m (sp_specs sp) src (get_priority m sp src)"
  unfolding get_priority_def by (rule get_priority_from_spec) simp

lemma get_priority_from_specs_only:
  "sp_specs sp' = sp_specs sp \<Longrightarrow> get_priority_from m sp' src i = get_priority_from m sp src i"
proof (induction m sp src i rule: get_priority_from.induct)
  case (1 m sp src i)
  then show ?case
    by (subst (1 2) get_priority_from.simps) auto
qed

lemma get_priority_specs_only:
  "sp_specs sp' = sp_specs sp \<Longrightarrow> get_priority m sp' src = get_priority m sp src"
  unfolding get_priority_def by (rule get_priority_from_specs_only)

lemma get_priority_keeps_specs [simp]:
  "sp_specs (snd (s4_sourcepref_get_priority st m sp src)) = sp_specs sp"
  by (simp add: s4_sourcepref_get_priority_def Let_def split: option.splits)

lemma table_ok_step:
  assumes ok: "table_ok st m sp"
  shows "table_ok st m (snd (s4_sourcepref_get_priority st m sp src))"
proof (cases "sp_table sp src")
  case (Some i)
  then show ?thesis using ok by (simp add: s4_sourcepref_get_priority_def)
next
  case None
  define pri where "pri = get_priority m sp (st src)"
  define sp' where "sp' = sp\<lparr>sp_table := (sp_table sp)(src \<mapsto> pri)\<rparr>"
  have eq: "snd (s4_sourcepref_get_priority st m sp src) = sp'"
    using None by (simp add: s4_sourcepref_get_priority_def Let_def sp'_def pri_def)
  have same: "get_priority m sp' s = get_priority m sp s" for s
    by (rule get_priority_specs_only) (simp add: sp'_def)
  have "table_ok st m sp'"
    unfolding table_ok_def
  proof (intro allI impI)
    fix s p assume a: "sp_table sp' s = Some p"
    show "p = get_priority m sp' (st s)"
    proof (cases "s = src")
      case True
      with a have "p = pri" by (simp add: sp'_def)
      then show ?thesis using True by (simp add: same pri_def)
    next
      case False
      with a have "sp_table sp s = Some p" by (simp add: sp'_def)
      with ok show ?thesis unfolding same table_ok_def by blast
    qed
  qed
  then show ?thesis by (simp add: eq)
qed

lemma table_ok_after: "table_ok st m (sp_after new st m srcprefs srcs)"
proof -
  have "table_ok st m sp \<Longrightarrow>
      table_ok st m (foldl (\<lambda>sp src. snd (s4_sourcepref_get_priority st m sp src)) sp srcs)" for sp
    by (induction srcs arbitrary: sp) (auto intro: table_ok_step)
  moreover have "table_ok st m (s4_sourcepref_create new srcprefs)"
    by (simp add: table_ok_def s4_sourcepref_create_def)
  ultimately show ?thesis by (simp add: sp_after_def)
qed

lemma specs_after [simp]: "sp_specs (sp_after new st m srcprefs srcs) = map new srcprefs"
proof -
  have "sp_specs (foldl (\<lambda>sp src. snd (s4_sourcepref_get_priority st m sp src)) sp srcs) = sp_specs sp" for sp
    by (induction srcs arbitrary: sp) auto
  then show ?thesis by (simp add: sp_after_def s4_sourcepref_create_def)
qed

lemma get_priority_result:
  "table_ok st m sp \<Longrightarrow> fst (s4_sourcepref_get_priority st m sp src) = get_priority m sp (st src)"
  by (auto simp: table_ok_def s4_sourcepref_get_priority_def Let_def split: option.splits)

lemma get_priority_repeat:
  "fst (s4_sourcepref_get_priority st m (snd (s4_sourcepref_get_priority st m sp src)) src)
     = fst (s4_sourcepref_get_priority st m sp src)"
  by (auto simp: s4_sourcepref_get_priority_def Let_def split: option.splits)

lemma fetchspec_array:
  "fs_array (fetchspec_of ref adds) =
     map (\<lambda>(key, sourcepref, flags).
            \<lparr>fd_key = key, fd_pref = map_option ref sourcepref, fd_flags = flags,
             fd_const_key = 0\<rparr>) adds"
proof -
  have "fs_array (foldl (\<lambda>spec (key, sourcepref, flags). s4_fetchspec_add ref spec key sourcepref flags)
          spec adds) =
     fs_array spec @ map (\<lambda>(key, sourcepref, flags).
            \<lparr>fd_key = key, fd_pref = map_option ref sourcepref, fd_flags = flags,
             fd_const_key = 0\<rparr>) adds" for spec
    by (induction adds arbitrary: spec)
       (auto simp: s4_fetchspec_add_def strdup_def split: option.splits)
  then show ?thesis by (simp add: fetchspec_of_def s4_fetchspec_create_def)
qed


section \<open>Properties of the write-ahead log\<close>

subsection \<open>The size estimate\<close>









subsection \<open>Where the headers are written\<close>

lemma log_write_header_offsets:
  assumes f: "logfile ld = Some f" and p: "fpos f = next_logpoint ld mod LOG_SIZE"
  shows "\<exists>f'. logfile (log_write_header a ld t sz) = Some f'
     \<and> (\<exists>new. fwrites f' = fwrites f @ new
          \<and> (\<forall>(off, w)\<in>set new. \<exists>t' n. w = W_header t' n \<and> off = n mod LOG_SIZE))"
proof -
  define pos where "pos = next_logpoint ld mod LOG_SIZE"
  have pos: "0 \<le> pos" "pos < LOG_SIZE" using LOG_SIZE_pos by (simp_all add: pos_def)
  have m: "log_number_t (pos + r * LOG_SIZE) mod LOG_SIZE = pos" for r
    using pos by (simp add: log_number_t_mod_LOG_SIZE)
  have z: "log_number_t (r * LOG_SIZE) mod LOG_SIZE = 0" for r
    by (simp add: log_number_t_mod_LOG_SIZE)
  show ?thesis
    using f p m z
    by (auto simp: log_write_header_def Let_def fwrite_def rewind_def pos_def [symmetric])
qed

lemma log_write_header_nowrap:
  assumes f: "logfile ld = Some f" and n: "next_logpoint ld = x + r * LOG_SIZE"
    and x: "0 \<le> x" "x < LOG_SIZE"
    and nw: "x + sz \<le> LOG_SIZE - int (sizeof_log_header a) * 2"
    and r: "0 \<le> r" "(r + 1) * LOG_SIZE < 2 ^ 64" and sz: "0 \<le> sz"
    and fp: "0 \<le> fpos f" "fpos f + int (sizeof_log_header a) + sz < LOG_SIZE"
  shows "log_write_header a ld t sz =
     ld\<lparr>logfile := Some \<lparr>fpos = fpos f + int (sizeof_log_header a),
                           fwrites = fwrites f @ [(fpos f, W_header t (x + r * LOG_SIZE))]\<rparr>,
        last_logpoint := x + r * LOG_SIZE,
        next_logpoint := fpos f + int (sizeof_log_header a) + r * LOG_SIZE + sz\<rparr>"
proof -
  have m: "(x + r * LOG_SIZE) mod LOG_SIZE = x" "(x + r * LOG_SIZE) div LOG_SIZE = r"
    "x mod LOG_SIZE = x" "x div LOG_SIZE = 0"
    using x by simp_all
  have rl: "0 \<le> r * LOG_SIZE" using r(1) LOG_SIZE_pos by simp
  have inrange: "log_number_t (y + r * LOG_SIZE) = y + r * LOG_SIZE"
    if "0 \<le> y" "y < LOG_SIZE" for y
  proof (rule log_number_t_id)
    show "0 \<le> y + r * LOG_SIZE" using that(1) rl by simp
    have "y + r * LOG_SIZE < LOG_SIZE + r * LOG_SIZE" using that(2) by simp
    also have "\<dots> = (r + 1) * LOG_SIZE" by (simp add: algebra_simps)
    finally show "y + r * LOG_SIZE < 2 ^ 64" using r(2) by simp
  qed
  have a1: "log_number_t (x + sz) = x + sz"
    using x sz nw by (intro log_number_t_id) (simp_all add: LOG_SIZE_def)
  have a2: "log_number_t (x + r * LOG_SIZE) = x + r * LOG_SIZE"
    using x by (rule inrange)
  have "log_number_t ((fpos f + int (sizeof_log_header a) + sz) + r * LOG_SIZE)
      = (fpos f + int (sizeof_log_header a) + sz) + r * LOG_SIZE"
    using fp sz by (intro inrange) simp_all
  then have a3: "log_number_t (fpos f + int (sizeof_log_header a) + r * LOG_SIZE + sz)
      = fpos f + int (sizeof_log_header a) + r * LOG_SIZE + sz"
    by (simp add: algebra_simps)
  show ?thesis
    using f nw a1 a2 a3 by (simp add: log_write_header_def n m Let_def fwrite_def ftell_def)
qed

text \<open>
  Where \<open>_log_checkpoint\<close> writes its records, when they fit before the end of the file:
  the END record stands \<open>sizeof (log_number_t)\<close> bytes after the CHECKPOINT header and
  carries a number that is \<open>sizeof (int32_t)\<close> past that of the CHECKPOINT record.
\<close>

lemma log_checkpoint_end_offset:
  assumes f: "logfile ld = Some f" and fp: "fpos f = p"
    and n: "next_logpoint ld = p + r * LOG_SIZE" and p0: "0 \<le> p"
    and r: "0 \<le> r" "(r + 1) * LOG_SIZE < 2 ^ 64"
    and room: "p + 4 * int (sizeof_log_header a) + int sizeof_log_number_t < LOG_SIZE"
  shows "\<exists>ld' f'. log_checkpoint a ld = Some ld' \<and> logfile ld' = Some f'
     \<and> fwrites f' = fwrites f @
          [(p, W_header LOG_ENTRY_BEGIN (p + r * LOG_SIZE)),
           (p + int (sizeof_log_header a),
              W_header LOG_ENTRY_CHECKPOINT (p + int (sizeof_log_header a) + r * LOG_SIZE)),
           (p + 2 * int (sizeof_log_header a), W_log_number (last_synced ld)),
           (p + 2 * int (sizeof_log_header a) + int sizeof_log_number_t,
              W_header LOG_ENTRY_END
                (p + 2 * int (sizeof_log_header a) + sizeof_int32_t + r * LOG_SIZE))]"
proof -
  let ?H = "int (sizeof_log_header a)"
  have H0: "0 \<le> ?H" by simp
  define f1 where "f1 = \<lparr>fpos = p + ?H, fwrites = fwrites f @ [(p, W_header LOG_ENTRY_BEGIN (p + r * LOG_SIZE))]\<rparr>"
  define ld1 where "ld1 = ld\<lparr>logfile := Some f1, last_logpoint := p + r * LOG_SIZE,
      next_logpoint := p + ?H + r * LOG_SIZE\<rparr>"
  have s1: "log_simple a ld LOG_ENTRY_BEGIN = ld1"
    unfolding log_simple_def ld1_def f1_def
    using log_write_header_nowrap [OF f n p0, of 0 a LOG_ENTRY_BEGIN] room H0 fp r p0
    by (simp add: sizeof_log_number_t_def)
  define f2 where "f2 = \<lparr>fpos = p + ?H + ?H, fwrites = fwrites f1 @ [(p + ?H, W_header LOG_ENTRY_CHECKPOINT (p + ?H + r * LOG_SIZE))]\<rparr>"
  define ld2 where "ld2 = ld1\<lparr>logfile := Some f2, last_logpoint := p + ?H + r * LOG_SIZE,
      next_logpoint := p + ?H + ?H + r * LOG_SIZE + sizeof_int32_t\<rparr>"
  have l1: "logfile ld1 = Some f1" "next_logpoint ld1 = (p + ?H) + r * LOG_SIZE" "fpos f1 = p + ?H"
    by (simp_all add: ld1_def f1_def)
  have s2: "log_write_header a ld1 LOG_ENTRY_CHECKPOINT sizeof_int32_t = ld2"
    unfolding ld2_def f2_def
    using log_write_header_nowrap [OF l1(1) l1(2), of sizeof_int32_t a LOG_ENTRY_CHECKPOINT] room H0 p0 l1(3) r
    by (simp add: sizeof_int32_t_def sizeof_log_number_t_def)
  define f3 where "f3 = fwrite a f2 (W_log_number (last_synced ld2))"
  define ld4 where "ld4 = ld2\<lparr>logfile := Some f3, last_checkpoint := last_synced ld2\<rparr>"
  have l4: "logfile ld4 = Some f3"
    "next_logpoint ld4 = (p + 2 * ?H + sizeof_int32_t) + r * LOG_SIZE"
    "fpos f3 = p + 2 * ?H + int sizeof_log_number_t"
    by (simp_all add: ld4_def ld2_def f3_def f2_def fwrite_def)
  have s3: "log_checkpoint a ld = Some (log_simple a ld4 LOG_ENTRY_END)"
    unfolding log_checkpoint_def Let_def s1 s2 by (simp add: ld4_def f3_def ld2_def)
  have s4: "log_simple a ld4 LOG_ENTRY_END =
     ld4\<lparr>logfile := Some \<lparr>fpos = fpos f3 + ?H,
                           fwrites = fwrites f3 @ [(fpos f3, W_header LOG_ENTRY_END ((p + 2 * ?H + sizeof_int32_t) + r * LOG_SIZE))]\<rparr>,
        last_logpoint := (p + 2 * ?H + sizeof_int32_t) + r * LOG_SIZE,
        next_logpoint := fpos f3 + ?H + r * LOG_SIZE + 0\<rparr>"
    unfolding log_simple_def
    using room H0 p0 r
    by (intro log_write_header_nowrap [OF l4(1) l4(2)])
       (simp_all add: sizeof_int32_t_def sizeof_log_number_t_def l4(3))
  have ls: "last_synced ld2 = last_synced ld" by (simp add: ld2_def ld1_def)
  show ?thesis
    unfolding s3 s4
    by (simp add: l4(3) f3_def f2_def f1_def fwrite_def ls)
qed

subsection \<open>Transactions of a sequence of records\<close>

lemma transactions_Cons:
  "transactions (ev # es) cur = transactions [ev] cur @ transactions es (open_after ev cur)"
  by (cases ev; cases cur) simp_all

lemma last_end_append: "last_end (ts1 @ ts2) s = last_end ts2 (last_end ts1 s)"
  by (simp add: last_end_def)

lemma transactions_no_end:
  "\<forall>c. EV_end c \<notin> set post \<Longrightarrow> transactions post cur = []"
proof (induction post arbitrary: cur)
  case Nil
  then show ?case by simp
next
  case (Cons ev es)
  then show ?case by (cases ev; cases cur) auto
qed

lemma transactions_append:
  "transactions (pre @ post) cur = transactions pre cur @ transactions post (open_after_all pre cur)"
proof (induction pre arbitrary: cur)
  case Nil
  then show ?case by simp
next
  case (Cons ev es)
  show ?case
    using Cons [of "open_after ev cur"] transactions_Cons [of ev "es @ post" cur]
      transactions_Cons [of ev es cur]
    by simp
qed

lemma transactions_discard:
  "\<forall>c. EV_end c \<notin> set post \<Longrightarrow> transactions (pre @ post) cur = transactions pre cur"
  by (simp add: transactions_append transactions_no_end)

lemma open_after_pending: "(open_after ev cur \<noteq> None) = spec_pending_after ev (cur \<noteq> None)"
  by (cases ev; cases cur) simp_all

subsection \<open>Reading a record: the code and the specification\<close>

lemma fread_in_full:
  "length (take n (drop (rpos f) (contents f))) = n
    \<Longrightarrow> fread_in f n = (take n (drop (rpos f) (contents f)), \<lparr>contents = contents f, rpos = rpos f + n\<rparr>)"
  by (simp add: fread_in_def Let_def)

lemma fread_in_eq:
  "fread_in f n = (take n (drop (rpos f) (contents f)),
     \<lparr>contents = contents f, rpos = rpos f + length (take n (drop (rpos f) (contents f)))\<rparr>)"
  by (simp add: fread_in_def Let_def)

lemma read_str_payload_Some:
  "spec_payload_str (contents f) (rpos f) len = Some (str, q')
    \<Longrightarrow> read_str f len = (Some str, \<lparr>contents = contents f, rpos = q'\<rparr>)"
  by (auto simp: spec_payload_str_def read_str_def fread_in_eq split: if_splits)

lemma read_str_payload_None:
  "spec_payload_str (contents f) (rpos f) len = None \<Longrightarrow> fst (read_str f len) = None"
  by (auto simp: spec_payload_str_def read_str_def fread_in_eq split: if_splits)

lemma read_val_payload_Some:
  "spec_payload_val a (contents f) (rpos f) len = Some (v, q')
    \<Longrightarrow> read_val a f len = (Some v, \<lparr>contents = contents f, rpos = q'\<rparr>)"
proof (cases "len = -1")
  case True
  assume "spec_payload_val a (contents f) (rpos f) len = Some (v, q')"
  with True show ?thesis
    by (auto simp: spec_payload_val_def read_val_def fread_in_eq sizeof_int32_t_def)
next
  case False
  assume p: "spec_payload_val a (contents f) (rpos f) len = Some (v, q')"
  with False obtain str where s: "spec_payload_str (contents f) (rpos f) len = Some (str, q')"
    and v: "v = S4_Str str"
    by (auto simp: spec_payload_val_def split: option.splits)
  from read_str_payload_Some [OF s] False v show ?thesis
    by (simp add: read_val_def)
qed

lemma read_val_payload_None:
  "spec_payload_val a (contents f) (rpos f) len = None \<Longrightarrow> fst (read_val a f len) = None"
proof (cases "len = -1")
  case True
  assume "spec_payload_val a (contents f) (rpos f) len = None"
  with True show ?thesis by (simp add: spec_payload_val_def)
next
  case False
  assume "spec_payload_val a (contents f) (rpos f) len = None"
  with False have "spec_payload_str (contents f) (rpos f) len = None"
    by (auto simp: spec_payload_val_def split: option.splits)
  from read_str_payload_None [OF this] False show ?thesis
    by (auto simp: read_val_def split: prod.splits option.splits)
qed

text \<open>
  \<open>_read_mod\<close> against the payload of the specification. The source reads the five
  fields before it tests any of them; the fields up to the first that cannot be read are
  those of the specification.
\<close>

lemma read_mod_payload:
  fixes f :: in_file
  defines "log \<equiv> contents f"
  shows "(case spec_payload_at a log (rpos f) of
            None \<Rightarrow> fst (read_mod a f (Some l) t) = 0
          | Some ((key_a, val_a, key_b, val_b, src), q') \<Rightarrow>
              read_mod a f (Some l) t =
                (1, \<lparr>contents = log, rpos = q'\<rparr>,
                 Some (if t = log_type_code LOG_ENTRY_ADD then l @ [OP_ADD key_a val_a key_b val_b src]
                       else if t = log_type_code LOG_ENTRY_DEL
                         then l @ [OP_DEL key_a val_a key_b val_b src]
                       else l)))"
proof -
  define f0 where "f0 = \<lparr>contents = log, rpos = rpos f + length (take 20 (drop (rpos f) log))\<rparr>"
  have fr: "fread_in f (nat sizeof_mod_header) = (take 20 (drop (rpos f) log), f0)"
    by (simp add: fread_in_eq sizeof_mod_header_def f0_def log_def)
  obtain ka_len va_len kb_len vb_len s_len
    where h: "decode_mod_header a (take 20 (drop (rpos f) log)) = (ka_len, va_len, kb_len, vb_len, s_len)"
    by (cases "decode_mod_header a (take 20 (drop (rpos f) log))") auto
  obtain key_a f1 where r1: "read_str f0 ka_len = (key_a, f1)" by (cases "read_str f0 ka_len") auto
  obtain val_a f2 where r2: "read_val a f1 va_len = (val_a, f2)" by (cases "read_val a f1 va_len") auto
  obtain key_b f3 where r3: "read_str f2 kb_len = (key_b, f3)" by (cases "read_str f2 kb_len") auto
  obtain val_b f4 where r4: "read_val a f3 vb_len = (val_b, f4)" by (cases "read_val a f3 vb_len") auto
  obtain src f5 where r5: "read_str f4 s_len = (src, f5)" by (cases "read_str f4 s_len") auto
  have rm: "read_mod a f (Some l) t =
      (case (key_a, val_a, key_b, val_b, src) of
         (Some ka, Some va, Some kb, Some vb, Some s) \<Rightarrow>
           if t = log_type_code LOG_ENTRY_ADD then (1, f5, Some (l @ [OP_ADD ka va kb vb s]))
           else if t = log_type_code LOG_ENTRY_DEL then (1, f5, Some (l @ [OP_DEL ka va kb vb s]))
           else (1, f5, Some l)
       | _ \<Rightarrow> (0, f5, Some l))"
    by (simp add: read_mod_def fr h r1 r2 r3 r4 r5)
  have c0: "contents f0 = log" "rpos f0 = rpos f + length (take 20 (drop (rpos f) log))"
    by (simp_all add: f0_def)
  show ?thesis
  proof (cases "spec_payload_str log (rpos f0) ka_len")
    case None
    then have "key_a = None" using read_str_payload_None [of f0 ka_len] r1 c0 by simp
    moreover have "spec_payload_at a log (rpos f) = None"
      using None h c0 by (simp add: spec_payload_at_def)
    ultimately show ?thesis by (simp add: rm)
  next
    case (Some x1)
    then obtain ka q1 where p1: "spec_payload_str log (rpos f0) ka_len = Some (ka, q1)" by (cases x1) auto
    from read_str_payload_Some [of f0 ka_len ka q1] p1 r1 c0
    have k1: "key_a = Some ka" "f1 = \<lparr>contents = log, rpos = q1\<rparr>" by simp_all
    then have c1: "contents f1 = log" "rpos f1 = q1" by simp_all
    show ?thesis
    proof (cases "spec_payload_val a log q1 va_len")
      case None
      then have "val_a = None" using read_val_payload_None [of a f1 va_len] r2 c1 by simp
      moreover have "spec_payload_at a log (rpos f) = None"
        using None h c0 p1 by (simp add: spec_payload_at_def)
      ultimately show ?thesis by (simp add: rm k1)
    next
      case (Some x2)
      then obtain va q2 where p2: "spec_payload_val a log q1 va_len = Some (va, q2)" by (cases x2) auto
      from read_val_payload_Some [of a f1 va_len va q2] p2 r2 c1
      have k2: "val_a = Some va" "f2 = \<lparr>contents = log, rpos = q2\<rparr>" by simp_all
      then have c2: "contents f2 = log" "rpos f2 = q2" by simp_all
      show ?thesis
      proof (cases "spec_payload_str log q2 kb_len")
        case None
        then have "key_b = None" using read_str_payload_None [of f2 kb_len] r3 c2 by simp
        moreover have "spec_payload_at a log (rpos f) = None"
          using None h c0 p1 p2 by (simp add: spec_payload_at_def)
        ultimately show ?thesis by (simp add: rm k1 k2)
      next
        case (Some x3)
        then obtain kb q3 where p3: "spec_payload_str log q2 kb_len = Some (kb, q3)" by (cases x3) auto
        from read_str_payload_Some [of f2 kb_len kb q3] p3 r3 c2
        have k3: "key_b = Some kb" "f3 = \<lparr>contents = log, rpos = q3\<rparr>" by simp_all
        then have c3: "contents f3 = log" "rpos f3 = q3" by simp_all
        show ?thesis
        proof (cases "spec_payload_val a log q3 vb_len")
          case None
          then have "val_b = None" using read_val_payload_None [of a f3 vb_len] r4 c3 by simp
          moreover have "spec_payload_at a log (rpos f) = None"
            using None h c0 p1 p2 p3 by (simp add: spec_payload_at_def)
          ultimately show ?thesis by (simp add: rm k1 k2 k3)
        next
          case (Some x4)
          then obtain vb q4 where p4: "spec_payload_val a log q3 vb_len = Some (vb, q4)" by (cases x4) auto
          from read_val_payload_Some [of a f3 vb_len vb q4] p4 r4 c3
          have k4: "val_b = Some vb" "f4 = \<lparr>contents = log, rpos = q4\<rparr>" by simp_all
          then have c4: "contents f4 = log" "rpos f4 = q4" by simp_all
          show ?thesis
          proof (cases "spec_payload_str log q4 s_len")
            case None
            then have "src = None" using read_str_payload_None [of f4 s_len] r5 c4 by simp
            moreover have "spec_payload_at a log (rpos f) = None"
              using None h c0 p1 p2 p3 p4 by (simp add: spec_payload_at_def)
            ultimately show ?thesis by (simp add: rm k1 k2 k3 k4)
          next
            case (Some x5)
            then obtain s q5 where p5: "spec_payload_str log q4 s_len = Some (s, q5)" by (cases x5) auto
            from read_str_payload_Some [of f4 s_len s q5] p5 r5 c4
            have k5: "src = Some s" "f5 = \<lparr>contents = log, rpos = q5\<rparr>" by simp_all
            have "spec_payload_at a log (rpos f) = Some ((ka, va, kb, vb, s), q5)"
              using h c0 p1 p2 p3 p4 p5 by (simp add: spec_payload_at_def)
            then show ?thesis by (simp add: rm k1 k2 k3 k4 k5)
          qed
        qed
      qed
    qed
  qed
qed

lemma header_at_here:
  "spec_header_at a (contents (r_file st)) (rpos (r_file st)) =
     (if fread_one (fst (fread_in (r_file st) (sizeof_log_header a))) (sizeof_log_header a)
      then Some (header_here a st) else None)"
  by (auto simp: spec_header_at_def header_here_def fread_one_def fread_in_def Let_def)

lemma expected_counter_here:
  "spec_expected_counter (rpos (r_file st)) (r_round st) = log_number_t (pos_here st + r_round st * LOG_SIZE)"
  by (simp add: spec_expected_counter_def pos_here_def ftell_in_def log_number_t_def mod_add_left_eq)

lemma header_read:
  assumes "spec_header_at a (contents (r_file st)) (rpos (r_file st)) = Some h"
  shows "snd (fread_in (r_file st) (sizeof_log_header a)) =
           \<lparr>contents = contents (r_file st), rpos = rpos (r_file st) + sizeof_log_header a\<rparr>"
    and "header_here a st = h"
  using assms by (auto simp: spec_header_at_def header_here_def fread_in_def Let_def split: if_splits)

lemma unknown_type_codes:
  assumes "unknown_type t"
  shows "t \<noteq> 0xaddadd" "t \<noteq> 0xde1e7e" "t \<noteq> 0x123123" "t \<noteq> 0x87654321"
    "t \<noteq> 1" "t \<noteq> 2" "t \<noteq> 3" "t \<noteq> 4"
proof -
  have "t \<noteq> log_type_code k" for k
    using assms by (auto simp: unknown_type_def)
  from this [of LOG_ENTRY_ADD] this [of LOG_ENTRY_DEL] this [of LOG_ENTRY_WRAP]
    this [of LOG_ENTRY_INIT] this [of LOG_ENTRY_BEGIN] this [of LOG_ENTRY_END]
    this [of LOG_ENTRY_WRITING] this [of LOG_ENTRY_CHECKPOINT]
  show "t \<noteq> 0xaddadd" "t \<noteq> 0xde1e7e" "t \<noteq> 0x123123" "t \<noteq> 0x87654321"
    "t \<noteq> 1" "t \<noteq> 2" "t \<noteq> 3" "t \<noteq> 4"
    by simp_all
qed

subsection \<open>One round of the loop is one record of the specification\<close>

lemma redo_step_record:
  assumes ni: "\<not> r_invalid_entry st"
    and inv: "r_next_logpoint st = log_number_t (pos_here st + r_round st * LOG_SIZE)"
    and rec: "spec_record_at a (contents (r_file st)) (rpos (r_file st)) (r_round st) (r_oplist st \<noteq> None)
                = Some (ev, p', r')"
  shows "redo_cond a st
     \<and> \<not> r_invalid_entry (redo_body a st)
     \<and> r_file (redo_body a st) = \<lparr>contents = contents (r_file st), rpos = p'\<rparr>
     \<and> r_round (redo_body a st) = r'
     \<and> r_oplist (redo_body a st) = open_after ev (r_oplist st)
     \<and> r_applied (redo_body a st) = r_applied st @ map fst (transactions [ev] (r_oplist st))
     \<and> r_last_valid_logpoint (redo_body a st) =
         last_end (transactions [ev] (r_oplist st)) (r_last_valid_logpoint st)"
proof -
  let ?log = "contents (r_file st)"
  let ?p = "rpos (r_file st)"
  let ?q = "?p + sizeof_log_header a"
  from rec obtain t n where h: "spec_header_at a ?log ?p = Some (t, n)"
    by (auto simp: spec_record_at_def split: option.splits)
  from rec h have n: "n = spec_expected_counter ?p (r_round st)"
    by (auto simp: spec_record_at_def Let_def split: if_splits)
  note hr = header_read [OF h]
  have one: "fread_one (fst (fread_in (r_file st) (sizeof_log_header a))) (sizeof_log_header a)"
    using h header_at_here [of a st] by (simp split: if_splits)
  have num: "n = log_number_t (pos_here st + r_round st * LOG_SIZE)"
    using n by (simp add: expected_counter_here)
  have c: "redo_cond a st"
    using ni one num hr(2) by (simp add: redo_cond_def)
  have nx: "r_next_logpoint st = n" using inv num by simp
  consider (beg) "t = 1" | (fin) "t = 2" | (add) "t = 0xaddadd" | (del) "t = 0xde1e7e"
    | (wrap) "t = 0x123123" | (chk) "t = 4" | (wr) "t = 3" | (init) "t = 0x87654321"
    | (unknown) "t \<noteq> 1" "t \<noteq> 2" "t \<noteq> 0xaddadd" "t \<noteq> 0xde1e7e" "t \<noteq> 0x123123" "t \<noteq> 4"
        "t \<noteq> 3" "t \<noteq> 0x87654321"
    by blast
  then show ?thesis
  proof cases
    case beg
    with rec h n have "ev = EV_begin" "p' = ?q" "r' = r_round st"
      by (auto simp: spec_record_at_def Let_def)
    with beg show ?thesis using c hr ni
      by (simp add: redo_body_def Let_def last_end_def)
  next
    case fin
    with rec h n have "ev = EV_end n" "p' = ?q" "r' = r_round st"
      by (auto simp: spec_record_at_def Let_def)
    with fin show ?thesis using c hr nx ni
      by (cases "r_oplist st") (simp_all add: redo_body_def Let_def last_end_def)
  next
    case wrap
    with rec h n have "ev = EV_other" "p' = 0" "r' = (r_round st + 1) mod 2 ^ 64"
      by (auto simp: spec_record_at_def Let_def)
    then have "ev = EV_other" "p' = 0" "r' = log_number_t (r_round st + 1)"
      by (simp_all only: log_number_t_def)
    with wrap show ?thesis using c hr ni
      by (simp add: redo_body_def Let_def last_end_def rewind_in_def)
  next
    case chk
    with rec h n have "ev = EV_other" "p' = ?q + length (take 8 (drop ?q ?log))" "r' = r_round st"
      by (auto simp: spec_record_at_def Let_def)
    with chk show ?thesis using c hr ni
      by (simp add: redo_body_def Let_def last_end_def fread_in_eq sizeof_log_number_t_def)
  next
    case wr
    with rec h n have "ev = EV_other" "p' = ?q" "r' = r_round st"
      by (auto simp: spec_record_at_def Let_def)
    with wr show ?thesis using c hr ni
      by (simp add: redo_body_def Let_def last_end_def)
  next
    case init
    with rec h n have "ev = EV_other" "p' = ?q" "r' = r_round st"
      by (auto simp: spec_record_at_def Let_def)
    with init show ?thesis using c hr ni
      by (simp add: redo_body_def Let_def last_end_def)
  next
    case unknown
    with rec h n show ?thesis by (simp add: spec_record_at_def Let_def)
  next
    case add
    with rec h n have pe: "r_oplist st \<noteq> None"
      by (auto simp: spec_record_at_def Let_def split: if_splits)
    then obtain l where l: "r_oplist st = Some l" by auto
    from add rec h n l obtain key_a val_a key_b val_b src
      where pl: "spec_payload_at a ?log ?q = Some ((key_a, val_a, key_b, val_b, src), p')"
        and e: "ev = EV_op (OP_ADD key_a val_a key_b val_b src)" "r' = r_round st"
      by (auto simp: spec_record_at_def Let_def split: option.splits)
    let ?f = "\<lparr>contents = ?log, rpos = ?q\<rparr>"
    from read_mod_payload [of a ?f l t] pl add
    have rm: "read_mod a ?f (Some l) 0xaddadd =
        (1, \<lparr>contents = ?log, rpos = p'\<rparr>, Some (l @ [OP_ADD key_a val_a key_b val_b src]))"
      by simp
    from add show ?thesis using c hr l rm e ni
      by (simp add: redo_body_def Let_def last_end_def)
  next
    case del
    with rec h n have pe: "r_oplist st \<noteq> None"
      by (auto simp: spec_record_at_def Let_def split: if_splits)
    then obtain l where l: "r_oplist st = Some l" by auto
    from del rec h n l obtain key_a val_a key_b val_b src
      where pl: "spec_payload_at a ?log ?q = Some ((key_a, val_a, key_b, val_b, src), p')"
        and e: "ev = EV_op (OP_DEL key_a val_a key_b val_b src)" "r' = r_round st"
      by (auto simp: spec_record_at_def Let_def split: option.splits)
    let ?f = "\<lparr>contents = ?log, rpos = ?q\<rparr>"
    from read_mod_payload [of a ?f l t] pl del
    have rm: "read_mod a ?f (Some l) 0xde1e7e =
        (1, \<lparr>contents = ?log, rpos = p'\<rparr>, Some (l @ [OP_DEL key_a val_a key_b val_b src]))"
      by simp
    from del show ?thesis using c hr l rm e ni
      by (simp add: redo_body_def Let_def last_end_def)
  qed
qed

lemma redo_step_stop:
  assumes c: "redo_cond a st"
    and rec: "spec_record_at a (contents (r_file st)) (rpos (r_file st)) (r_round st) (r_oplist st \<noteq> None) = None"
  shows "r_invalid_entry (redo_body a st)
     \<and> r_applied (redo_body a st) = r_applied st
     \<and> r_last_valid_logpoint (redo_body a st) = r_last_valid_logpoint st"
proof -
  let ?log = "contents (r_file st)"
  let ?p = "rpos (r_file st)"
  let ?q = "?p + sizeof_log_header a"
  obtain t n where hh: "header_here a st = (t, n)" by (cases "header_here a st") auto
  from c have h: "spec_header_at a ?log ?p = Some (t, n)"
    and n: "n = spec_expected_counter ?p (r_round st)"
    by (simp_all add: redo_cond_def header_at_here hh expected_counter_here)
  note hr = header_read [OF h]
  consider (known) "t = 1 \<or> t = 2 \<or> t = 0x123123 \<or> t = 4 \<or> t = 3 \<or> t = 0x87654321"
    | (modif) "t = 0xaddadd \<or> t = 0xde1e7e"
    | (unknown) "t \<noteq> 0xaddadd" "t \<noteq> 0xde1e7e" "t \<noteq> 0x123123" "t \<noteq> 0x87654321"
        "t \<noteq> 1" "t \<noteq> 2" "t \<noteq> 3" "t \<noteq> 4"
    by blast
  then show ?thesis
  proof cases
    case known
    with rec h n show ?thesis by (auto simp: spec_record_at_def Let_def)
  next
    case unknown
    then show ?thesis using hr
      by (simp add: redo_body_def Let_def)
  next
    case modif
    show ?thesis
    proof (cases "r_oplist st")
      case None
      with modif show ?thesis using hr
        by (auto simp: redo_body_def Let_def read_mod_def)
    next
      case (Some l)
      with modif rec h n have pl: "spec_payload_at a ?log ?q = None"
        by (auto simp: spec_record_at_def Let_def split: option.splits)
      let ?f = "\<lparr>contents = ?log, rpos = ?q\<rparr>"
      obtain rc f' l' where rm: "read_mod a ?f (Some l) t = (rc, f', l')"
        by (cases "read_mod a ?f (Some l) t") auto
      from read_mod_payload [of a ?f l t] pl rm have rc: "rc = 0" by simp
      from modif show ?thesis using hr Some rm rc
        by (auto simp: redo_body_def Let_def)
    qed
  qed
qed

lemma redo_body_inv:
  "r_next_logpoint (redo_body a st) =
     log_number_t (pos_here (redo_body a st) + r_round (redo_body a st) * LOG_SIZE)"
  by (simp add: redo_body_def Let_def pos_here_def)

lemma redo_loop_stops: "\<not> redo_cond a st \<Longrightarrow> redo_loop a st = redo_exit a st"
  by (subst redo_loop.simps) simp

lemma redo_exit_fields [simp]:
  "r_applied (redo_exit a st) = r_applied st"
  "r_last_valid_logpoint (redo_exit a st) = r_last_valid_logpoint st"
  "contents (r_file (redo_exit a st)) = contents (r_file st)"
  by (simp_all add: redo_exit_def)

lemma redo_loop_invalid:
  assumes "redo_cond a st" "r_invalid_entry (redo_body a st)"
  shows "redo_loop a st = redo_body a st"
proof -
  have "redo_loop a st = redo_loop a (redo_body a st)"
    using assms(1) by (subst redo_loop.simps) simp
  also have "\<dots> = redo_exit a (redo_body a st)"
    using assms(2) by (intro redo_loop_stops) (simp add: redo_cond_def)
  also have "\<dots> = redo_body a st"
    using assms(2) by (simp add: redo_exit_def)
  finally show ?thesis .
qed

text \<open>
  The loop applies the transactions of the records of the specification, and ends with
  the log point of the last of them.
\<close>

lemma redo_loop_records:
  "\<not> r_invalid_entry st
    \<Longrightarrow> r_next_logpoint st = log_number_t (pos_here st + r_round st * LOG_SIZE)
    \<Longrightarrow> r_applied (redo_loop a st) =
          r_applied st @ map fst (transactions
            (spec_records a (contents (r_file st)) (rpos (r_file st)) (r_round st) (r_oplist st \<noteq> None))
            (r_oplist st))
      \<and> r_last_valid_logpoint (redo_loop a st) =
          last_end (transactions
            (spec_records a (contents (r_file st)) (rpos (r_file st)) (r_round st) (r_oplist st \<noteq> None))
            (r_oplist st)) (r_last_valid_logpoint st)
      \<and> contents (r_file (redo_loop a st)) = contents (r_file st)"
proof (induction a st rule: redo_loop.induct)
  case (1 a st)
  let ?rec = "spec_record_at a (contents (r_file st)) (rpos (r_file st)) (r_round st) (r_oplist st \<noteq> None)"
  show ?case
  proof (cases ?rec)
    case None
    then have r: "spec_records a (contents (r_file st)) (rpos (r_file st)) (r_round st) (r_oplist st \<noteq> None) = []"
      by (subst spec_records.simps) simp
    show ?thesis
    proof (cases "redo_cond a st")
      case False
      show ?thesis unfolding redo_loop_stops [OF False] r by (simp add: last_end_def)
    next
      case True
      from redo_step_stop [OF True None]
      have s: "r_invalid_entry (redo_body a st)" "r_applied (redo_body a st) = r_applied st"
        "r_last_valid_logpoint (redo_body a st) = r_last_valid_logpoint st"
        by simp_all
      from redo_body_progress [OF True]
      have "contents (r_file (redo_body a st)) = contents (r_file st)" by simp
      then show ?thesis unfolding redo_loop_invalid [OF True s(1)] r using s by (simp add: last_end_def)
    qed
  next
    case (Some x)
    then obtain ev p' r' where rec: "?rec = Some (ev, p', r')" by (cases x) auto
    from redo_step_record [OF "1.prems"(1) "1.prems"(2) rec]
    have c: "redo_cond a st" and ni: "\<not> r_invalid_entry (redo_body a st)"
      and f: "r_file (redo_body a st) = \<lparr>contents = contents (r_file st), rpos = p'\<rparr>"
      and r: "r_round (redo_body a st) = r'"
      and o: "r_oplist (redo_body a st) = open_after ev (r_oplist st)"
      and ap: "r_applied (redo_body a st) = r_applied st @ map fst (transactions [ev] (r_oplist st))"
      and lv: "r_last_valid_logpoint (redo_body a st) =
         last_end (transactions [ev] (r_oplist st)) (r_last_valid_logpoint st)"
      by simp_all
    note ih = "1.IH" [OF c ni redo_body_inv]
    have l: "redo_loop a st = redo_loop a (redo_body a st)"
      using c by (subst redo_loop.simps) simp
    have pend: "(r_oplist (redo_body a st) \<noteq> None) = spec_pending_after ev (r_oplist st \<noteq> None)"
      unfolding o by (rule open_after_pending)
    have recs: "spec_records a (contents (r_file st)) (rpos (r_file st)) (r_round st) (r_oplist st \<noteq> None)
        = ev # spec_records a (contents (r_file st)) p' r' (spec_pending_after ev (r_oplist st \<noteq> None))"
      using rec by (subst spec_records.simps) simp
    let ?rest = "spec_records a (contents (r_file st)) p' r' (spec_pending_after ev (r_oplist st \<noteq> None))"
    have ih': "r_applied (redo_loop a (redo_body a st)) =
          r_applied (redo_body a st) @ map fst (transactions ?rest (open_after ev (r_oplist st)))"
      "r_last_valid_logpoint (redo_loop a (redo_body a st)) =
          last_end (transactions ?rest (open_after ev (r_oplist st)))
            (r_last_valid_logpoint (redo_body a st))"
      "contents (r_file (redo_loop a (redo_body a st))) = contents (r_file st)"
      using ih unfolding pend unfolding f r o by simp_all
    have tc: "transactions (ev # ?rest) (r_oplist st) =
        transactions [ev] (r_oplist st) @ transactions ?rest (open_after ev (r_oplist st))"
      by (rule transactions_Cons)
    show ?thesis
      unfolding l recs tc ih' ap lv by (simp add: last_end_append)
  qed
qed

subsection \<open>Where the scan starts and where the call leaves the log\<close>

lemma fseek_in_mod: "fseek_in f (x mod LOG_SIZE) = Some \<lparr>contents = contents f, rpos = nat (x mod LOG_SIZE)\<rparr>"
proof -
  have "0 \<le> x mod LOG_SIZE" using LOG_SIZE_pos by simp
  then show ?thesis by (simp add: fseek_in_def)
qed

lemma redo_preamble_start:
  assumes start: "spec_scan_start a reread_file s4 = Some s4c"
    and lf: "logfile (s4_log_data s4c) = Some f"
  shows "redo_preamble a reread_file s4 =
     Inr \<lparr>r_file = \<lparr>contents = contents f,
                     rpos = fst (spec_first_record a (last_logpoint (s4_log_data s4c)))\<rparr>,
          r_round = snd (spec_first_record a (last_logpoint (s4_log_data s4c))),
          r_new_checkpoint = log_number_t (- 1),
          r_new_synced = log_number_t (- 1),
          r_last_valid_logpoint = last_logpoint (s4_log_data s4c),
          r_oplist = None,
          r_invalid_entry = False,
          r_last_checkpoint = last_checkpoint (s4_log_data s4c),
          r_last_synced = last_synced (s4_log_data s4c),
          r_last_logpoint = last_logpoint (s4_log_data s4c),
          r_next_logpoint = log_number_t (last_logpoint (s4_log_data s4c) + int (sizeof_log_header a)),
          r_applied = s4_applied s4c\<rparr>"
proof -
  from start obtain f0 where f0: "logfile (s4_log_data s4) = Some f0"
    by (auto simp: spec_scan_start_def split: option.splits)
  let ?p = "nat (last_logpoint (s4_log_data s4) mod LOG_SIZE)"
  let ?f1 = "\<lparr>contents = contents f0, rpos = ?p\<rparr>"
  from start f0 obtain t n where h: "spec_header_at a (contents f0) ?p = Some (t, n)"
    by (auto simp: spec_scan_start_def Let_def split: option.splits)
  let ?after = "s4\<lparr>s4_log_data := (s4_log_data s4)
      \<lparr>logfile := Some \<lparr>contents = contents f0, rpos = ?p + sizeof_log_header a\<rparr>\<rparr>\<rparr>"
  from start f0 h have s4c: "s4c = (if n = last_logpoint (s4_log_data s4) then ?after else reread_file ?after)"
    by (simp add: spec_scan_start_def Let_def)
  have len: "length (take (sizeof_log_header a) (drop ?p (contents f0))) = sizeof_log_header a"
    and H: "0 < sizeof_log_header a"
    and dec: "decode_log_header a (take (sizeof_log_header a) (drop ?p (contents f0))) = (t, n)"
    using h by (auto simp: spec_header_at_def Let_def split: if_splits)
  have fr: "fread_in ?f1 (sizeof_log_header a) =
      (take (sizeof_log_header a) (drop ?p (contents f0)),
       \<lparr>contents = contents f0, rpos = ?p + sizeof_log_header a\<rparr>)"
    using fread_in_full [of "sizeof_log_header a" ?f1] len by simp
  have one: "fread_one (take (sizeof_log_header a) (drop ?p (contents f0))) (sizeof_log_header a)"
    using len H by (simp add: fread_one_def)
  have c: "(if snd (t, n) \<noteq> last_logpoint (s4_log_data ?after) then reread_file ?after else ?after) = s4c"
    using s4c by simp
  have "redo_preamble a reread_file s4 =
     (let ld = s4_log_data s4c;
          next = log_number_t (last_logpoint ld + int (sizeof_log_header a));
          ld' = ld\<lparr>next_logpoint := next\<rparr>
      in (case logfile ld of
            None \<Rightarrow> Inl None
          | Some f3 \<Rightarrow>
              (case fseek_in f3 (next mod LOG_SIZE) of
                 None \<Rightarrow> Inl (Some (0, s4c\<lparr>s4_log_data := ld'\<rparr>))
               | Some f4 \<Rightarrow>
                   Inr \<lparr>r_file = f4,
                        r_round = next div LOG_SIZE,
                        r_new_checkpoint = log_number_t (- 1),
                        r_new_synced = log_number_t (- 1),
                        r_last_valid_logpoint = last_logpoint ld,
                        r_oplist = None,
                        r_invalid_entry = False,
                        r_last_checkpoint = last_checkpoint ld,
                        r_last_synced = last_synced ld,
                        r_last_logpoint = last_logpoint ld,
                        r_next_logpoint = next,
                        r_applied = s4_applied s4c\<rparr>)))"
    unfolding redo_preamble_def f0 option.case fseek_in_mod fr prod.case Let_def [of "s4\<lparr>s4_log_data := _\<rparr>"]
      dec
    using one c by (simp only: if_False not_not simp_thms Let_def)
  then show ?thesis
    using lf by (simp add: fseek_in_mod Let_def spec_first_record_def log_number_t_def)
qed

lemma redo_preamble_none:
  assumes "spec_scan_start a reread_file s4 = None" "logfile (s4_log_data s4) = Some f"
  shows "\<exists>s4'. redo_preamble a reread_file s4 = Inl (Some (0, s4'))
     \<and> s4_applied s4' = s4_applied s4
     \<and> last_logpoint (s4_log_data s4') = last_logpoint (s4_log_data s4)"
proof -
  let ?p = "nat (last_logpoint (s4_log_data s4) mod LOG_SIZE)"
  from assms have h: "spec_header_at a (contents f) ?p = None"
    by (auto simp: spec_scan_start_def Let_def split: option.splits)
  then have "\<not> fread_one (take (sizeof_log_header a) (drop ?p (contents f))) (sizeof_log_header a)"
    by (auto simp: spec_header_at_def Let_def fread_one_def split: if_splits)
  then show ?thesis
    using assms(2) by (simp add: redo_preamble_def fseek_in_mod Let_def fread_in_eq)
qed

subsection \<open>Where the loop stops\<close>

lemma redo_stop_mismatch:
  "snd (header_here a t) \<noteq> log_number_t (pos_here t + r_round t * LOG_SIZE)
    \<Longrightarrow> redo_loop a t = redo_exit a t"
  by (rule redo_loop_stops) (simp add: redo_cond_def)

lemma redo_stop_unknown:
  assumes c: "redo_cond a t" and u: "unknown_type (fst (header_here a t))"
  shows "redo_loop a t = redo_body a t
     \<and> r_applied (redo_body a t) = r_applied t
     \<and> r_last_valid_logpoint (redo_body a t) = r_last_valid_logpoint t"
proof -
  note n = unknown_type_codes [OF u]
  have inv: "r_invalid_entry (redo_body a t)"
    using n by (simp add: redo_body_def Let_def)
  have same: "r_applied (redo_body a t) = r_applied t"
    "r_last_valid_logpoint (redo_body a t) = r_last_valid_logpoint t"
    using n by (simp_all add: redo_body_def Let_def)
  from redo_loop_invalid [OF c inv] same show ?thesis by simp
qed

lemma redo_stop_unpaired:
  assumes c: "redo_cond a t" and o: "r_oplist t = None"
    and m: "fst (header_here a t) = log_type_code LOG_ENTRY_ADD
            \<or> fst (header_here a t) = log_type_code LOG_ENTRY_DEL"
  shows "redo_loop a t = redo_body a t
     \<and> r_applied (redo_body a t) = r_applied t
     \<and> r_last_valid_logpoint (redo_body a t) = r_last_valid_logpoint t"
proof -
  have inv: "r_invalid_entry (redo_body a t)"
    using m o by (auto simp: redo_body_def Let_def read_mod_def)
  have same: "r_applied (redo_body a t) = r_applied t"
    "r_last_valid_logpoint (redo_body a t) = r_last_valid_logpoint t"
    using m o by (auto simp: redo_body_def Let_def read_mod_def)
  from redo_loop_invalid [OF c inv] same show ?thesis by simp
qed


section \<open>The claims about the value index\<close>


text \<open>
  Claim C1, evaluated on the code. The index holds one bucket for the value \<open>''a''\<close>
  with one occurrence of the relation at address 200, count 1, as one insertion into the
  empty index leaves it; the occurrence array stands at address 500. Deleting that
  relation from that value returns 0 and leaves the occurrence, its count and the bucket
  as they were: line 157 compares the relation reference with the address of the
  occurrence array, which it never equals.
\<close>

theorem index_delete_never_removes:
  "snd (index_insert 500 0 index_create (S4_Str ''a'') 200) =
     \<lparr>ix_alloc = 1, ix_data =
        [\<lparr>it_val = S4_Str ''a'', it_alloc = 1, it_data_addr = 500,
           it_data = [\<lparr>od_data = 200, od_count = 1\<rparr>]\<rparr>], ix_stale = []\<rparr>
   \<and> index_delete 0
       \<lparr>ix_alloc = 1, ix_data =
        [\<lparr>it_val = S4_Str ''a'', it_alloc = 1, it_data_addr = 500,
           it_data = [\<lparr>od_data = 200, od_count = 1\<rparr>]\<rparr>], ix_stale = []\<rparr>
       (S4_Str ''a'') 200 =
     Inr (0, \<lparr>ix_alloc = 1, ix_data =
        [\<lparr>it_val = S4_Str ''a'', it_alloc = 1, it_data_addr = 500,
           it_data = [\<lparr>od_data = 200, od_count = 1\<rparr>]\<rparr>], ix_stale = []\<rparr>)"
  by code_simp

text \<open>
  Claim C6, evaluated on the code. The index holds one bucket for the value \<open>''a''\<close>
  with the occurrences 200 and 100, count 1 each. Inserting the relation 100 for the
  value \<open>''a''\<close> again finds it at position 1 of the bucket; line 130 compares that
  position with the number of buckets, 1, takes the occurrence for a new one and adds a
  second occurrence of relation 100 instead of incrementing the count.
\<close>

theorem index_insert_duplicates_occurrence:
  "snd (index_insert 502 0
     \<lparr>ix_alloc = 1, ix_data =
        [\<lparr>it_val = S4_Str ''a'', it_alloc = 2, it_data_addr = 501,
           it_data = [\<lparr>od_data = 200, od_count = 1\<rparr>, \<lparr>od_data = 100, od_count = 1\<rparr>]\<rparr>],
      ix_stale = []\<rparr>
     (S4_Str ''a'') 100) =
     \<lparr>ix_alloc = 1, ix_data =
        [\<lparr>it_val = S4_Str ''a'', it_alloc = 4, it_data_addr = 502,
           it_data = [\<lparr>od_data = 200, od_count = 1\<rparr>, \<lparr>od_data = 100, od_count = 1\<rparr>,
                      \<lparr>od_data = 100, od_count = 1\<rparr>]\<rparr>],
      ix_stale = []\<rparr>"
  by code_simp

text \<open>
  Claim C8. For every index that is strictly sorted under the canonical comparator and
  every predicate that is monotone along that order, \<open>_index_search\<close> returns exactly
  the relation references that occur in the buckets whose value the predicate maps to 0,
  each of them once, and the empty list when the predicate maps no bucket's value to 0.
  The predicate is \<open>func (value, func_data)\<close>, with \<open>_val_comp\<close> for a \<open>NULL\<close> function.
\<close>

theorem index_search_exact:
  assumes s: "index_sorted index"
    and m: "monotone_pred (\<lambda>v. (case func of None \<Rightarrow> val_comp | Some g \<Rightarrow> g) v func_data)"
  shows "set (index_search index func func_data) =
           matching_refs index (\<lambda>v. (case func of None \<Rightarrow> val_comp | Some g \<Rightarrow> g) v func_data)
       \<and> distinct (index_search index func func_data)
       \<and> ((\<forall>b\<in>set (ix_data index). (case func of None \<Rightarrow> val_comp | Some g \<Rightarrow> g) (it_val b) func_data \<noteq> 0)
            \<longrightarrow> index_search index func func_data = [])"
proof -
  define fn where "fn = (case func of None \<Rightarrow> val_comp | Some g \<Rightarrow> g)"
  define i where "i = bsearch index fn func_data"
  let ?bs = "ix_data index"
  have mono: "sign_mono (\<lambda>v. fn v func_data) ?bs"
    using monotone_sign_mono [OF s m] by (simp add: fn_def)
  have post: "bsearch_post (\<lambda>v. fn v func_data) ?bs i"
    unfolding i_def using mono by (rule bsearch_spec [of fn func_data index])
  have main: "set (index_search index func func_data) = matching_refs index (\<lambda>v. fn v func_data)
       \<and> distinct (index_search index func func_data)
       \<and> ((\<forall>b\<in>set ?bs. fn (it_val b) func_data \<noteq> 0) \<longrightarrow> index_search index func func_data = [])"
  proof (cases "i \<ge> ix_size index \<or> fn (it_val (?bs ! i)) func_data \<noteq> 0")
    case True
    then have res: "index_search index func func_data = []"
      by (simp add: index_search_def Let_def fn_def [symmetric] i_def [symmetric])
    from True post have part: "(\<forall>k<i. fn (it_val (?bs ! k)) func_data < 0)"
        "(\<forall>k. i \<le> k \<and> k < length ?bs \<longrightarrow> fn (it_val (?bs ! k)) func_data > 0)"
      by (auto simp: bsearch_post_def ix_size_def)
    have nz: "fn (it_val b) func_data \<noteq> 0" if "b \<in> set ?bs" for b
    proof -
      from that obtain k where k: "k < length ?bs" "b = ?bs ! k" by (auto simp: in_set_conv_nth)
      show ?thesis using part(1) [rule_format, of k] part(2) [rule_format, of k] k
        by (cases "k < i") auto
    qed
    then have "matching_refs index (\<lambda>v. fn v func_data) = {}"
      by (auto simp: matching_refs_def)
    with res show ?thesis by simp
  next
    case False
    then have i: "i < length ?bs" and z: "fn (it_val (?bs ! i)) func_data = 0"
      by (simp_all add: ix_size_def)
    define found where "found = collect ?bs fn func_data (nat (scan_left ?bs fn func_data (int i) + 1)) []"
    have res: "index_search index func func_data = rev found"
      using False by (simp add: index_search_def Let_def fn_def [symmetric] i_def [symmetric] found_def)
    have ex: "\<not> (\<forall>b\<in>set ?bs. fn (it_val b) func_data \<noteq> 0)"
      using i z nth_mem [of i ?bs] by blast
    from search_found [of fn func_data ?bs i] mono i z
    have "set found = matching_refs index (\<lambda>v. fn v func_data)" and "distinct found"
      unfolding found_def matching_refs_def by blast+
    with res ex show ?thesis by auto
  qed
  then show ?thesis unfolding fn_def .
qed

theorem index_search_exact_witness:
  "index_sorted \<lparr>ix_alloc = 4, ix_data =
        [\<lparr>it_val = S4_Int 7, it_alloc = 1, it_data_addr = 501,
           it_data = [\<lparr>od_data = 202, od_count = 1\<rparr>]\<rparr>,
         \<lparr>it_val = S4_Str ''a'', it_alloc = 2, it_data_addr = 502,
           it_data = [\<lparr>od_data = 201, od_count = 1\<rparr>, \<lparr>od_data = 200, od_count = 2\<rparr>]\<rparr>,
         \<lparr>it_val = S4_Str ''b'', it_alloc = 1, it_data_addr = 500,
           it_data = [\<lparr>od_data = 200, od_count = 1\<rparr>]\<rparr>], ix_stale = []\<rparr>
   \<and> monotone_pred (\<lambda>v. if val_comp v (S4_Str ''a'') < 0 then -1 else 0)
   \<and> index_search \<lparr>ix_alloc = 4, ix_data =
        [\<lparr>it_val = S4_Int 7, it_alloc = 1, it_data_addr = 501,
           it_data = [\<lparr>od_data = 202, od_count = 1\<rparr>]\<rparr>,
         \<lparr>it_val = S4_Str ''a'', it_alloc = 2, it_data_addr = 502,
           it_data = [\<lparr>od_data = 201, od_count = 1\<rparr>, \<lparr>od_data = 200, od_count = 2\<rparr>]\<rparr>,
         \<lparr>it_val = S4_Str ''b'', it_alloc = 1, it_data_addr = 500,
           it_data = [\<lparr>od_data = 200, od_count = 1\<rparr>]\<rparr>], ix_stale = []\<rparr>
       (Some (\<lambda>v d. if val_comp v d < 0 then -1 else 0)) (S4_Str ''a'') = [200, 201]
   \<and> matching_refs \<lparr>ix_alloc = 4, ix_data =
        [\<lparr>it_val = S4_Int 7, it_alloc = 1, it_data_addr = 501,
           it_data = [\<lparr>od_data = 202, od_count = 1\<rparr>]\<rparr>,
         \<lparr>it_val = S4_Str ''a'', it_alloc = 2, it_data_addr = 502,
           it_data = [\<lparr>od_data = 201, od_count = 1\<rparr>, \<lparr>od_data = 200, od_count = 2\<rparr>]\<rparr>,
         \<lparr>it_val = S4_Str ''b'', it_alloc = 1, it_data_addr = 500,
           it_data = [\<lparr>od_data = 200, od_count = 1\<rparr>]\<rparr>], ix_stale = []\<rparr>
       (\<lambda>v. if val_comp v (S4_Str ''a'') < 0 then -1 else 0) = {200, 201}"
proof -
  let ?index = "\<lparr>ix_alloc = 4, ix_data =
        [\<lparr>it_val = S4_Int 7, it_alloc = 1, it_data_addr = 501,
           it_data = [\<lparr>od_data = 202, od_count = 1\<rparr>]\<rparr>,
         \<lparr>it_val = S4_Str ''a'', it_alloc = 2, it_data_addr = 502,
           it_data = [\<lparr>od_data = 201, od_count = 1\<rparr>, \<lparr>od_data = 200, od_count = 2\<rparr>]\<rparr>,
         \<lparr>it_val = S4_Str ''b'', it_alloc = 1, it_data_addr = 500,
           it_data = [\<lparr>od_data = 200, od_count = 1\<rparr>]\<rparr>], ix_stale = []\<rparr>"
  have s: "index_sorted ?index" by (simp add: index_sorted_def)
  have m: "monotone_pred (\<lambda>v. (case Some (\<lambda>v d. if val_comp v d < 0 then -1 else 0) of
              None \<Rightarrow> val_comp | Some g \<Rightarrow> g) v (S4_Str ''a''))"
    using monotone_at_least [of "S4_Str ''a''"] by simp
  have r: "index_search ?index (Some (\<lambda>v d. if val_comp v d < 0 then -1 else 0)) (S4_Str ''a'')
      = [200, 201]"
    by code_simp
  from index_search_exact [OF s m] r s m show ?thesis by simp
qed

section \<open>The claims about source preferences and fetch specifications\<close>

text \<open>
  Claim C9. For every source preference (created from any pattern strings and queried
  any number of times before) and every source id, \<open>s4_sourcepref_get_priority\<close> returns
  the index of the first pattern, in order, that matches the source string, or \<open>INT_MAX\<close>
  when no pattern matches; a second call with the same source id returns the same
  priority; and the priority is the one \<open>_get_priority\<close> computes, whether it came from
  the table or was computed by the call.
\<close>

theorem sourcepref_priority:
  "first_match m (map new srcprefs) (st src)
     (fst (s4_sourcepref_get_priority st m (sp_after new st m srcprefs srcs) src))
   \<and> fst (s4_sourcepref_get_priority st m
          (snd (s4_sourcepref_get_priority st m (sp_after new st m srcprefs srcs) src)) src)
     = fst (s4_sourcepref_get_priority st m (sp_after new st m srcprefs srcs) src)
   \<and> fst (s4_sourcepref_get_priority st m (sp_after new st m srcprefs srcs) src)
     = get_priority m (s4_sourcepref_create new srcprefs) (st src)"
proof -
  let ?sp = "sp_after new st m srcprefs srcs"
  have r: "fst (s4_sourcepref_get_priority st m ?sp src) = get_priority m ?sp (st src)"
    by (rule get_priority_result [OF table_ok_after])
  have "first_match m (sp_specs ?sp) (st src) (get_priority m ?sp (st src))"
    by (rule get_priority_spec)
  moreover have "get_priority m ?sp (st src) = get_priority m (s4_sourcepref_create new srcprefs) (st src)"
    by (rule get_priority_specs_only) (simp add: s4_sourcepref_create_def)
  ultimately show ?thesis using r get_priority_repeat [of st m ?sp src] by simp
qed

theorem sourcepref_priority_witness:
  "first_match (\<lambda>p s. p = s) (map id [''server'', ''plugin/id3'']) ''plugin/id3'' 1
   \<and> fst (s4_sourcepref_get_priority (\<lambda>i. if i = 1 then ''plugin/id3'' else ''scanner'')
          (\<lambda>p s. p = s)
          (sp_after id (\<lambda>i. if i = 1 then ''plugin/id3'' else ''scanner'') (\<lambda>p s. p = s)
             [''server'', ''plugin/id3''] [1, 2, 1]) 1) = 1
   \<and> fst (s4_sourcepref_get_priority (\<lambda>i. if i = 1 then ''plugin/id3'' else ''scanner'')
          (\<lambda>p s. p = s)
          (sp_after id (\<lambda>i. if i = 1 then ''plugin/id3'' else ''scanner'') (\<lambda>p s. p = s)
             [''server'', ''plugin/id3''] []) 2) = INT_MAX"
proof -
  let ?st = "\<lambda>i::int. if i = 1 then ''plugin/id3'' else ''scanner''"
  let ?m = "\<lambda>(p::string) s. p = s"
  have a: "fst (s4_sourcepref_get_priority ?st ?m
      (sp_after id ?st ?m [''server'', ''plugin/id3''] [1, 2, 1]) 1) = 1"
    by code_simp
  have b: "fst (s4_sourcepref_get_priority ?st ?m
      (sp_after id ?st ?m [''server'', ''plugin/id3''] []) 2) = INT_MAX"
    by code_simp
  from sourcepref_priority [of ?m id "[''server'', ''plugin/id3'']" ?st 1 "[1, 2, 1]"] a b
  show ?thesis by simp
qed

text \<open>
  Claim C10. For every fetch specification built by \<open>s4_fetchspec_add\<close> and every integer
  index: when the index is negative or not less than the number of projections,
  \<open>s4_fetchspec_get_key\<close> and \<open>s4_fetchspec_get_sourcepref\<close> return \<open>NULL\<close> and
  \<open>s4_fetchspec_get_flags\<close> returns 0; otherwise they return the key and the flags that
  were passed to \<open>s4_fetchspec_add\<close> at that position, and for the source preference
  the pointer \<open>s4_sourcepref_ref\<close> returned for the one passed (\<open>NULL\<close> for \<open>NULL\<close>):
  the pointer passed itself, when \<open>s4_sourcepref_ref\<close> returns its argument.
\<close>

theorem fetchspec_get:
  "s4_fetchspec_get_key (fetchspec_of ref adds) index =
     (if index < 0 \<or> index \<ge> int (length adds) then None else fst (adds ! nat index))
   \<and> s4_fetchspec_get_sourcepref (fetchspec_of ref adds) index =
     (if index < 0 \<or> index \<ge> int (length adds) then None
      else map_option ref (fst (snd (adds ! nat index))))
   \<and> s4_fetchspec_get_sourcepref (fetchspec_of (\<lambda>sp. sp) adds) index =
     (if index < 0 \<or> index \<ge> int (length adds) then None else fst (snd (adds ! nat index)))
   \<and> s4_fetchspec_get_flags (fetchspec_of ref adds) index =
     (if index < 0 \<or> index \<ge> int (length adds) then 0 else snd (snd (adds ! nat index)))"
  by (auto simp: s4_fetchspec_get_key_def s4_fetchspec_get_sourcepref_def s4_fetchspec_get_flags_def
      fetchspec_array option.map_ident split: prod.splits)

theorem fetchspec_get_witness:
  "s4_fetchspec_get_key (fetchspec_of (\<lambda>sp. sp) [(Some ''title'', Some 77, 1), (None, None, 7)]) 0
      = Some ''title''
   \<and> s4_fetchspec_get_sourcepref (fetchspec_of (\<lambda>sp. sp) [(Some ''title'', Some 77, 1), (None, None, 7)]) 0
      = Some 77
   \<and> s4_fetchspec_get_flags (fetchspec_of (\<lambda>sp. sp) [(Some ''title'', Some 77, 1), (None, None, 7)]) 1 = 7
   \<and> s4_fetchspec_get_key (fetchspec_of (\<lambda>sp. sp) [(Some ''title'', Some 77, 1), (None, None, 7)]) 2
      = None
   \<and> s4_fetchspec_get_flags (fetchspec_of (\<lambda>sp. sp) [(Some ''title'', Some 77, 1), (None, None, 7)]) (- 1)
      = 0"
  using fetchspec_get [of "\<lambda>sp. sp" "[(Some ''title'', Some 77, 1), (None, None, 7)]" 0]
    fetchspec_get [of "\<lambda>sp. sp" "[(Some ''title'', Some 77, 1), (None, None, 7)]" 1]
    fetchspec_get [of "\<lambda>sp. sp" "[(Some ''title'', Some 77, 1), (None, None, 7)]" 2]
    fetchspec_get [of "\<lambda>sp. sp" "[(Some ''title'', Some 77, 1), (None, None, 7)]" "- 1"]
  by simp

section \<open>The claims about the write-ahead log\<close>

text \<open>
  Claim C3, evaluated on the code. On a log that has just been created, with the 64-bit
  counter of the specification, \<open>_log_checkpoint\<close> writes BEGIN at offset 16 with number
  16 and CHECKPOINT at offset 32 with number 32, then the 8 bytes of \<open>last_synced\<close>, and
  then the END record at offset 56 with the number 52: the CHECKPOINT header announced
  \<open>sizeof (int32_t)\<close> bytes of data, so the number of the record that follows is 4 less
  than the offset it is written at.
\<close>

theorem log_checkpoint_end_misplaced:
  "log_checkpoint lp64 fresh_log =
     Some \<lparr>logfile = Some \<lparr>fpos = 72, fwrites =
              [(16, W_header LOG_ENTRY_BEGIN 16), (32, W_header LOG_ENTRY_CHECKPOINT 32),
               (48, W_log_number 0), (56, W_header LOG_ENTRY_END 52)]\<rparr>,
           last_checkpoint = 0, last_synced = 0, last_logpoint = 52, next_logpoint = 72\<rparr>"
  by code_simp




text \<open>
  Claim C5, evaluated on the code. For an oplist that adds six relations with integer
  values \<open>_estimate_size\<close> returns 307, and \<open>_log_write\<close> appends 314 bytes for it to a
  log that has just been created. On a log with exactly 307 bytes left before
  \<open>last_checkpoint + LOG_SIZE\<close> the write is accepted and leaves \<open>next_logpoint\<close> 63 past
  that limit.
\<close>

theorem estimate_size_too_small:
  "fst (estimate_size lp64 six_adds 0) = 307
   \<and> (case log_write lp64 fresh_log six_adds of (rc, ld) \<Rightarrow>
        rc = 1 \<and> map_option (bytes_written lp64) (logfile ld) = Some 314)
   \<and> next_logpoint nearly_full_log + fst (estimate_size lp64 six_adds 0)
       = last_checkpoint nearly_full_log + LOG_SIZE
   \<and> (case log_write lp64 nearly_full_log six_adds of (rc, ld) \<Rightarrow>
        rc = 1 \<and> last_checkpoint ld = 0 \<and> next_logpoint ld = LOG_SIZE + 63)"
  by code_simp


text \<open>
  Claim C2, as the code has it. Let \<open>_log_redo\<close> run over any log contents, and let the
  scan be that of the specification: from the record after the one at \<open>last_logpoint\<close>,
  it stops at the first record whose counter differs from the expected one
  (position + rotation * \<open>LOG_SIZE\<close>, modulo \<open>2 ^ 64\<close>) or whose type is unknown, and also
  where no whole header can be read and at the first ADD or DEL record that stands
  outside a BEGIN ... END pair or that cannot be read in full. Then \<open>_log_redo\<close> returns 1;
  \<open>last_logpoint\<close> is the log point of the END record of the last transaction completed
  before the place where the scan stops, or is left as it was when there is none; the
  oplists applied to the store are those of the completed transactions, in order, so
  that the ADD and DEL operations of a transaction whose END was never read are not
  applied; and the stream is left one header after \<open>last_logpoint\<close>. When no whole header
  stands at the \<open>last_logpoint\<close> the call starts from, it returns 0 and changes neither
  the store nor \<open>last_logpoint\<close>. In the loop of the code: a header whose counter is not
  the expected one ends the loop once it is read; a header of unknown type, and an ADD
  or DEL header read while no transaction is open, end it after one round that applies
  nothing and records no log point.
\<close>

theorem log_redo_recovers:
  "(\<forall>s4c f. spec_scan_start a reread_file s4 = Some s4c \<and> logfile (s4_log_data s4c) = Some f \<longrightarrow>
      (\<exists>s4'. log_redo a reread_file s4 = Some (1, s4')
          \<and> last_logpoint (s4_log_data s4') =
              last_end (transactions (spec_scanned a (contents f) (last_logpoint (s4_log_data s4c))) None)
                (last_logpoint (s4_log_data s4c))
          \<and> s4_applied s4' = s4_applied s4c
              @ map fst (transactions (spec_scanned a (contents f) (last_logpoint (s4_log_data s4c))) None)
          \<and> (\<forall>before after.
                spec_scanned a (contents f) (last_logpoint (s4_log_data s4c)) = before @ after
                \<and> (\<forall>c. EV_end c \<notin> set after)
                \<longrightarrow> s4_applied s4' = s4_applied s4c @ map fst (transactions before None))
          \<and> logfile (s4_log_data s4') =
              Some \<lparr>contents = contents f,
                    rpos = fst (spec_first_record a (last_logpoint (s4_log_data s4')))\<rparr>))
   \<and> (\<forall>f. spec_scan_start a reread_file s4 = None \<and> logfile (s4_log_data s4) = Some f \<longrightarrow>
        (\<exists>s4'. log_redo a reread_file s4 = Some (0, s4')
           \<and> s4_applied s4' = s4_applied s4
           \<and> last_logpoint (s4_log_data s4') = last_logpoint (s4_log_data s4)))
   \<and> (\<forall>t. snd (header_here a t) \<noteq> log_number_t (pos_here t + r_round t * LOG_SIZE)
          \<longrightarrow> redo_loop a t = redo_exit a t)
   \<and> (\<forall>t. redo_cond a t
            \<and> (unknown_type (fst (header_here a t))
               \<or> (r_oplist t = None
                  \<and> (fst (header_here a t) = log_type_code LOG_ENTRY_ADD
                     \<or> fst (header_here a t) = log_type_code LOG_ENTRY_DEL)))
          \<longrightarrow> redo_loop a t = redo_body a t
              \<and> r_applied (redo_body a t) = r_applied t
              \<and> r_last_valid_logpoint (redo_body a t) = r_last_valid_logpoint t)"
proof -
  have main: "\<exists>s4'. log_redo a reread_file s4 = Some (1, s4')
          \<and> last_logpoint (s4_log_data s4') =
              last_end (transactions (spec_scanned a (contents f) (last_logpoint (s4_log_data s4c))) None)
                (last_logpoint (s4_log_data s4c))
          \<and> s4_applied s4' = s4_applied s4c
              @ map fst (transactions (spec_scanned a (contents f) (last_logpoint (s4_log_data s4c))) None)
          \<and> (\<forall>before after.
                spec_scanned a (contents f) (last_logpoint (s4_log_data s4c)) = before @ after
                \<and> (\<forall>c. EV_end c \<notin> set after)
                \<longrightarrow> s4_applied s4' = s4_applied s4c @ map fst (transactions before None))
          \<and> logfile (s4_log_data s4') =
              Some \<lparr>contents = contents f,
                    rpos = fst (spec_first_record a (last_logpoint (s4_log_data s4')))\<rparr>"
    if start: "spec_scan_start a reread_file s4 = Some s4c" and lf: "logfile (s4_log_data s4c) = Some f"
    for s4c f
  proof -
    let ?lp = "last_logpoint (s4_log_data s4c)"
    define st where "st =
        \<lparr>r_file = \<lparr>contents = contents f, rpos = fst (spec_first_record a ?lp)\<rparr>,
          r_round = snd (spec_first_record a ?lp),
          r_new_checkpoint = log_number_t (- 1),
          r_new_synced = log_number_t (- 1),
          r_last_valid_logpoint = ?lp,
          r_oplist = None,
          r_invalid_entry = False,
          r_last_checkpoint = last_checkpoint (s4_log_data s4c),
          r_last_synced = last_synced (s4_log_data s4c),
          r_last_logpoint = ?lp,
          r_next_logpoint = log_number_t (?lp + int (sizeof_log_header a)),
          r_applied = s4_applied s4c\<rparr>"
    have pre: "redo_preamble a reread_file s4 = Inr st"
      unfolding st_def using start lf by (rule redo_preamble_start)
    define s4' where "s4' = redo_finish a (redo_loop a st)"
    have r: "log_redo a reread_file s4 = Some (1, s4')"
      using pre by (simp add: log_redo_def s4'_def)
    define nxt where "nxt = log_number_t (?lp + int (sizeof_log_header a))"
    have fr: "spec_first_record a ?lp = (nat (nxt mod LOG_SIZE), nxt div LOG_SIZE)"
      by (simp add: spec_first_record_def nxt_def log_number_t_def Let_def)
    have m0: "0 \<le> nxt mod LOG_SIZE" and m1: "nxt mod LOG_SIZE < LOG_SIZE"
      using LOG_SIZE_pos by simp_all
    have "log_number_t (nxt mod LOG_SIZE) = nxt mod LOG_SIZE"
      using m0 m1 by (intro log_number_t_id) (simp_all add: LOG_SIZE_def)
    then have ph: "pos_here st = nxt mod LOG_SIZE"
      using m0 by (simp add: st_def pos_here_def ftell_in_def fr)
    have rr: "r_round st = nxt div LOG_SIZE" by (simp add: st_def fr)
    have "pos_here st + r_round st * LOG_SIZE = nxt" unfolding ph rr by simp
    moreover have "log_number_t nxt = nxt" by (simp add: nxt_def)
    moreover have "r_next_logpoint st = nxt" by (simp add: st_def nxt_def)
    ultimately have inv: "r_next_logpoint st = log_number_t (pos_here st + r_round st * LOG_SIZE)"
      by simp
    have ni: "\<not> r_invalid_entry st" by (simp add: st_def)
    have sc: "spec_records a (contents (r_file st)) (rpos (r_file st)) (r_round st) (r_oplist st \<noteq> None)
        = spec_scanned a (contents f) ?lp"
      by (simp add: st_def spec_scanned_def split: prod.splits)
    from redo_loop_records [OF ni inv, of a]
    have ap: "r_applied (redo_loop a st) =
          s4_applied s4c @ map fst (transactions (spec_scanned a (contents f) ?lp) None)"
      and ll: "r_last_valid_logpoint (redo_loop a st) =
          last_end (transactions (spec_scanned a (contents f) ?lp) None) ?lp"
      and ct: "contents (r_file (redo_loop a st)) = contents f"
      unfolding sc by (simp_all add: st_def)
    have ap': "s4_applied s4' = s4_applied s4c @ map fst (transactions (spec_scanned a (contents f) ?lp) None)"
      using ap by (simp add: s4'_def redo_finish_def Let_def)
    have ll': "last_logpoint (s4_log_data s4') =
        last_end (transactions (spec_scanned a (contents f) ?lp) None) ?lp"
      using ll by (simp add: s4'_def redo_finish_def Let_def)
    have fl: "logfile (s4_log_data s4') =
        Some \<lparr>contents = contents f, rpos = fst (spec_first_record a (last_logpoint (s4_log_data s4')))\<rparr>"
      using ct
      by (simp add: s4'_def redo_finish_def Let_def fseek_in_mod spec_first_record_def log_number_t_def)
    have disc: "\<forall>before after. spec_scanned a (contents f) ?lp = before @ after \<and> (\<forall>c. EV_end c \<notin> set after)
        \<longrightarrow> s4_applied s4' = s4_applied s4c @ map fst (transactions before None)"
      using ap' by (auto simp: transactions_discard)
    from r ll' ap' disc fl show ?thesis by blast
  qed
  have none: "\<exists>s4'. log_redo a reread_file s4 = Some (0, s4')
           \<and> s4_applied s4' = s4_applied s4
           \<and> last_logpoint (s4_log_data s4') = last_logpoint (s4_log_data s4)"
    if "spec_scan_start a reread_file s4 = None" "logfile (s4_log_data s4) = Some f" for f
    using redo_preamble_none [OF that] by (auto simp: log_redo_def)
  have stop: "redo_loop a t = redo_body a t
              \<and> r_applied (redo_body a t) = r_applied t
              \<and> r_last_valid_logpoint (redo_body a t) = r_last_valid_logpoint t"
    if "redo_cond a t"
       "unknown_type (fst (header_here a t))
         \<or> (r_oplist t = None
            \<and> (fst (header_here a t) = log_type_code LOG_ENTRY_ADD
               \<or> fst (header_here a t) = log_type_code LOG_ENTRY_DEL))"
    for t
    using that redo_stop_unknown [of a t] redo_stop_unpaired [of a t] by blast
  from main none stop redo_stop_mismatch [of a] show ?thesis by blast
qed

text \<open>
  The theorem on the example log: the scan goes through the first transaction and the
  BEGIN and DEL of the second, and stops at the END record whose counter is 99 where
  152 is expected; recovery applies the first transaction and ends with its log point,
  76, and with the stream at offset 92.
\<close>

theorem log_redo_recovers_witness:
  "spec_scan_start lp64 id (s4_on example_log) =
     Some ((s4_on example_log)\<lparr>s4_log_data := (s4_log_data (s4_on example_log))
             \<lparr>logfile := Some \<lparr>contents = example_log, rpos = 16\<rparr>\<rparr>\<rparr>)
   \<and> spec_scanned lp64 example_log 0 =
       [EV_begin, EV_op (OP_ADD ''a'' (S4_Str ''b'') ''c'' (S4_Int 7) ''s''), EV_end 76,
        EV_begin, EV_op (OP_DEL ''a'' (S4_Str ''b'') ''c'' (S4_Int 7) ''s'')]
   \<and> (\<exists>s4'. log_redo lp64 id (s4_on example_log) = Some (1, s4')
         \<and> last_logpoint (s4_log_data s4') = 76
         \<and> s4_applied s4' = [[OP_ADD ''a'' (S4_Str ''b'') ''c'' (S4_Int 7) ''s'']]
         \<and> logfile (s4_log_data s4') = Some \<lparr>contents = example_log, rpos = 92\<rparr>)"
proof -
  let ?s4c = "(s4_on example_log)\<lparr>s4_log_data := (s4_log_data (s4_on example_log))
             \<lparr>logfile := Some \<lparr>contents = example_log, rpos = 16\<rparr>\<rparr>\<rparr>"
  let ?f = "\<lparr>contents = example_log, rpos = 16\<rparr>"
  have start: "spec_scan_start lp64 id (s4_on example_log) = Some ?s4c"
    by code_simp
  have lf: "logfile (s4_log_data ?s4c) = Some ?f" by simp
  have sc: "spec_scanned lp64 example_log 0 =
       [EV_begin, EV_op (OP_ADD ''a'' (S4_Str ''b'') ''c'' (S4_Int 7) ''s''), EV_end 76,
        EV_begin, EV_op (OP_DEL ''a'' (S4_Str ''b'') ''c'' (S4_Int 7) ''s'')]"
    by code_simp
  have lp: "last_logpoint (s4_log_data (s4_on example_log)) = 0" "s4_applied (s4_on example_log) = []"
    by (simp_all add: s4_on_def)
  have fr: "fst (spec_first_record lp64 76) = 92" by code_simp
  from log_redo_recovers [of lp64 id "s4_on example_log"] start lf
  obtain s4' where
    "log_redo lp64 id (s4_on example_log) = Some (1, s4')"
    "last_logpoint (s4_log_data s4') =
       last_end (transactions (spec_scanned lp64 (contents ?f) (last_logpoint (s4_log_data ?s4c))) None)
         (last_logpoint (s4_log_data ?s4c))"
    "s4_applied s4' = s4_applied ?s4c
       @ map fst (transactions (spec_scanned lp64 (contents ?f) (last_logpoint (s4_log_data ?s4c))) None)"
    "logfile (s4_log_data s4') =
       Some \<lparr>contents = contents ?f, rpos = fst (spec_first_record lp64 (last_logpoint (s4_log_data s4')))\<rparr>"
    by blast
  then have "log_redo lp64 id (s4_on example_log) = Some (1, s4')
      \<and> last_logpoint (s4_log_data s4') = 76
      \<and> s4_applied s4' = [[OP_ADD ''a'' (S4_Str ''b'') ''c'' (S4_Int 7) ''s'']]
      \<and> logfile (s4_log_data s4') = Some \<lparr>contents = example_log, rpos = 92\<rparr>"
    by (simp add: lp sc last_end_def fr)
  then show ?thesis using start sc by blast
qed

text \<open>
  The claim as it is written fails on \<open>unpaired_log\<close>. The records at the offsets 16,
  60, 76 and 120 are of known types (DEL, BEGIN, DEL, END) and carry the counters
  expected at their offsets in rotation 0, and from offset 60 on they are a whole
  transaction that the END record at log point 120 terminates: no record before that END
  has a counter that differs or an unknown type. Recovery returns 1 with \<open>last_logpoint\<close>
  left at 0 and applies nothing: the scan stopped at the DEL record at offset 16, which
  no BEGIN precedes (\<open>_read_mod\<close> returns 0 for a \<open>NULL\<close> oplist).
\<close>

theorem log_redo_unpaired_counterexample:
  "spec_header_at lp64 unpaired_log 16 = Some (log_type_code LOG_ENTRY_DEL, spec_expected_counter 16 0)
   \<and> spec_header_at lp64 unpaired_log 60 = Some (log_type_code LOG_ENTRY_BEGIN, spec_expected_counter 60 0)
   \<and> spec_header_at lp64 unpaired_log 76 = Some (log_type_code LOG_ENTRY_DEL, spec_expected_counter 76 0)
   \<and> spec_header_at lp64 unpaired_log 120 = Some (log_type_code LOG_ENTRY_END, spec_expected_counter 120 0)
   \<and> spec_records lp64 unpaired_log 60 0 False =
       [EV_begin, EV_op (OP_DEL ''a'' (S4_Str ''b'') ''c'' (S4_Int 7) ''s''), EV_end 120]
   \<and> map_option fst (log_redo lp64 id (s4_on unpaired_log)) = Some 1
   \<and> map_option (last_logpoint \<circ> s4_log_data \<circ> snd) (log_redo lp64 id (s4_on unpaired_log)) = Some 0
   \<and> map_option (s4_applied \<circ> snd) (log_redo lp64 id (s4_on unpaired_log)) = Some []"
  by code_simp


end
